theory Spec2Isabelle
  imports Main "HOL-Library.Word" "HOL-Library.Monad_Syntax"
begin
unbundle bit_operations_syntax

section \<open>Noir values, failure and bounded loops\<close>

text \<open>
  The circuits are written in Noir. A failed \<open>assert\<close>, an out-of-range array index and an
  overflowing or underflowing unsigned operation all abort the program: every one of them
  is the value \<open>None\<close> here. Bytes (\<open>u8\<close>) are 8-bit words. Values of type \<open>u32\<close> and
  \<open>u64\<close> are natural numbers; \<open>u32\<close> and \<open>u64\<close> below are the range checks of the checked
  operations, \<open>sub_chk\<close> is checked subtraction, and a cast \<open>as u32\<close> or \<open>as u8\<close> is the
  remainder it computes. A fixed-size array \<open>[T; N]\<close> is a list of length \<open>N\<close>. A value of
  type \<open>Field\<close> is a number modulo \<open>field_modulus\<close>, the order of the BN254 scalar field.
\<close>

type_synonym u8 = "8 word"

definition noir_assert :: "bool \<Rightarrow> unit option" where
  "noir_assert b = (if b then Some () else None)"

definition u32 :: "nat \<Rightarrow> nat option" where
  "u32 x = (if x < 2 ^ 32 then Some x else None)"

definition u64 :: "nat \<Rightarrow> nat option" where
  "u64 x = (if x < 2 ^ 64 then Some x else None)"

definition sub_chk :: "nat \<Rightarrow> nat \<Rightarrow> nat option" where
  "sub_chk a b = (if b \<le> a then Some (a - b) else None)"

definition as_u8 :: "nat \<Rightarrow> nat" where
  "as_u8 x = x mod 2 ^ 8"

definition as_u32 :: "nat \<Rightarrow> nat" where
  "as_u32 x = x mod 2 ^ 32"

definition as_u64 :: "nat \<Rightarrow> nat" where
  "as_u64 x = x mod 2 ^ 64"

definition nth_chk :: "'a list \<Rightarrow> nat \<Rightarrow> 'a option" where
  "nth_chk xs i = (if i < length xs then Some (xs ! i) else None)"

definition upd_chk :: "'a list \<Rightarrow> nat \<Rightarrow> 'a \<Rightarrow> 'a list option" where
  "upd_chk xs i v = (if i < length xs then Some (xs[i := v]) else None)"

definition ind :: "bool \<Rightarrow> nat" where
  "ind b = (if b then 1 else 0)"

definition field_modulus :: nat where
  "field_modulus = 21888242871839275222246405745257275088548364400416034343698204186575808495617"

text \<open>
  \<open>for i in 0..n { body }\<close> is \<open>for_loop body [0..<n] s\<close>, where \<open>s\<close> holds the variables the
  body assigns. \<open>write_loop f out [0..<n]\<close> is the loop whose body is \<open>out[i] = f(i)\<close>.
\<close>

fun for_loop :: "(nat \<Rightarrow> 's \<Rightarrow> 's option) \<Rightarrow> nat list \<Rightarrow> 's \<Rightarrow> 's option" where
  "for_loop body [] s = Some s"
| "for_loop body (i # is) s = (case body i s of None \<Rightarrow> None | Some s' \<Rightarrow> for_loop body is s')"

definition write_loop :: "(nat \<Rightarrow> 'a option) \<Rightarrow> 'a list \<Rightarrow> nat list \<Rightarrow> 'a list option" where
  "write_loop f out is =
     for_loop (\<lambda>i out. case f i of None \<Rightarrow> None | Some v \<Rightarrow> upd_chk out i v) is out"

text \<open>
  Modelled from the spec: the constants of \<open>const.nr\<close>, which the repository's sources
  import and do not include (\<open>KEY_LENGTH\<close>, \<open>NIBBLE_LENGTH\<close>, \<open>MAX_TRIE_NODE_LENGTH\<close>,
  \<open>MAX_NUM_FIELDS\<close>, \<open>MAX_STORAGE_VALUE_LENGTH\<close>, \<open>BRANCH\<close>, \<open>LEAF\<close>), with the values the
  specification lists. \<open>MAX_ACCOUNT_STATE_LENGTH\<close> has no value there and is a parameter
  of the state verifier.
\<close>

definition KEY_LENGTH :: nat where "KEY_LENGTH = 32"
definition NIBBLE_LENGTH :: nat where "NIBBLE_LENGTH = 64"
definition MAX_TRIE_NODE_LENGTH :: nat where "MAX_TRIE_NODE_LENGTH = 532"
definition MAX_NUM_FIELDS :: nat where "MAX_NUM_FIELDS = 17"
definition MAX_STORAGE_VALUE_LENGTH :: nat where "MAX_STORAGE_VALUE_LENGTH = 32"
definition BRANCH :: nat where "BRANCH = 0"
definition LEAF :: nat where "LEAF = 1"

section \<open>utils.nr\<close>

definition memcpy :: "u8 list \<Rightarrow> u8 list \<Rightarrow> nat \<Rightarrow> u8 list option" where
  "memcpy dest src offset =
     write_loop (\<lambda>i. do { j \<leftarrow> u32 (offset + i); nth_chk src j }) dest [0..<length dest]"

definition assert_subarray :: "u8 list \<Rightarrow> u8 list \<Rightarrow> nat \<Rightarrow> nat \<Rightarrow> unit option" where
  "assert_subarray subarray array len offset =
     for_loop (\<lambda>i _. if i < len
                      then do { j \<leftarrow> u32 (offset + i);
                                b \<leftarrow> nth_chk array j;
                                noir_assert (subarray ! i = b) }
                      else Some ())
       [0..<length subarray] ()"

definition byte_to_nibbles :: "u8 \<Rightarrow> u8 \<times> u8" where
  "byte_to_nibbles b = (let upper = drop_bit 4 b; lower = b - 16 * upper in (upper, lower))"

definition left_byte_shift :: "u8 list \<Rightarrow> nat \<Rightarrow> u8 list option" where
  "left_byte_shift input n =
     (let N = length input in
      write_loop (\<lambda>i. do { s \<leftarrow> u32 (i + n);
                           let index_ind = ind (as_u32 s < as_u32 N);
                           b \<leftarrow> nth_chk input (index_ind * s);
                           Some (of_nat index_ind * b) })
        (replicate N 0) [0..<N])"

definition byte_value :: "u8 list \<Rightarrow> (u8 list \<times> nat) option" where
  "byte_value in_value =
     (let N = length in_value in
      do { value_length \<leftarrow>
             for_loop (\<lambda>i value_length.
                   let num_bytes_ind = ind (value_length = 0);
                       byte_ind = ind (in_value ! i \<noteq> 0)
                   in do { d \<leftarrow> sub_chk N i;
                           u32 (num_bytes_ind * byte_ind * d + (1 - num_bytes_ind) * value_length) })
               [0..<N] 0;
           n \<leftarrow> sub_chk N value_length;
           value \<leftarrow> left_byte_shift in_value n;
           Some (value, value_length) })"

section \<open>rlp.nr\<close>

definition MAX_LEN_IN_BYTES :: nat where "MAX_LEN_IN_BYTES = 2"
definition STRING :: nat where "STRING = 0"
definition LIST :: nat where "LIST = 1"

record RLP_Header =
  offset_h :: nat
  length_h :: nat
  data_type_h :: nat

record RLP_List =
  offset_l :: "nat list"
  length_l :: "nat list"
  data_type_l :: "nat list"
  num_fields :: nat

definition strict_if :: "bool \<Rightarrow> nat \<Rightarrow> nat \<Rightarrow> nat" where
  "strict_if pred x y = (let pred_f = ind pred in (pred_f * x + (1 - pred_f) * y) mod field_modulus)"

definition take_dot_drop :: "nat \<Rightarrow> 'a list \<Rightarrow> nat \<Rightarrow> 'a list option" where
  "take_dot_drop M arr n =
     do { a0 \<leftarrow> nth_chk arr 0;
          write_loop (\<lambda>i. do { s \<leftarrow> u64 (i + n);
                               let j = ind (s < length arr) * s;
                               nth_chk arr j })
            (replicate M a0) [0..<M] }"

definition data_len :: "u8 list \<Rightarrow> nat \<Rightarrow> nat option" where
  "data_len arr lenlen =
     (let N = length arr in
      do { _ \<leftarrow> noir_assert (lenlen \<le> MAX_LEN_IN_BYTES);
           nm1 \<leftarrow> sub_chk N 1;
           let loop_len_ind = ind (MAX_LEN_IN_BYTES < nm1);
           let loop_len = as_u64 (nat ((int loop_len_ind * (int MAX_LEN_IN_BYTES - int nm1)
                                         + int N - 1) mod int field_modulus));
           for_loop (\<lambda>i out.
                 let len_len_ind = ind (as_u32 i < as_u32 lenlen)
                 in do { b \<leftarrow> nth_chk arr (i + 1);
                         v \<leftarrow> u64 (256 * out + unat b);
                         Some (len_len_ind * v + (1 - len_len_ind) * out) })
             [0..<loop_len] 0 })"

definition decode_len :: "u8 list \<Rightarrow> RLP_Header option" where
  "decode_len arr =
     do { prefix \<leftarrow> nth_chk arr 0;
          let prefix_ind1 = (prefix < 0x80);
          let prefix_ind2 = (prefix < 0xb8);
          let prefix_ind3 = (prefix < 0xc0);
          let prefix_ind4 = (prefix < 0xf8);
          p1 \<leftarrow> (if unat (1 :: u8) + unat prefix < 2 ^ 8 then Some (1 + prefix) else None);
          let offset = as_u64 (strict_if prefix_ind1 0
                         (strict_if prefix_ind2 1
                           (strict_if prefix_ind3 (unat (p1 - 0xb7))
                             (strict_if prefix_ind4 1 (unat (p1 - 0xf7))))));
          let lenlen = ind prefix_ind3 * (1 - ind prefix_ind2) * unat (prefix - 0xb7)
                       + (1 - ind prefix_ind4) * unat (prefix - 0xf7);
          dl \<leftarrow> data_len arr lenlen;
          let len = as_u64 (strict_if (lenlen = 0)
                      (strict_if prefix_ind1 1
                        (strict_if prefix_ind2 (unat (prefix - 0x80)) (unat (prefix - 0xc0))))
                      dl);
          let data_type = ind (prefix \<ge> 0xc0);
          Some \<lparr>offset_h = offset, length_h = len, data_type_h = data_type\<rparr> }"

definition decode0 :: "u8 list \<Rightarrow> (nat \<times> nat) option" where
  "decode0 input =
     do { h \<leftarrow> decode_len input;
          total_len \<leftarrow> u64 (length_h h + offset_h h);
          _ \<leftarrow> noir_assert (data_type_h h = STRING);
          _ \<leftarrow> noir_assert (total_len \<le> length input);
          Some (offset_h h, length_h h) }"

type_synonym decode_state = "nat \<times> nat \<times> nat list \<times> nat list \<times> nat list"

definition decode1_body :: "u8 list \<Rightarrow> nat \<Rightarrow> nat \<Rightarrow> decode_state \<Rightarrow> decode_state option" where
  "decode1_body input total_len i st =
     (case st of (offset, nfields, dec_off, dec_len, dec_type) \<Rightarrow>
      do { let loop_ind = ind (offset \<noteq> total_len);
           header \<leftarrow> take_dot_drop (MAX_LEN_IN_BYTES + 1) input offset;
           h \<leftarrow> decode_len header;
           let field_off = offset_h h;
           let field_len = length_h h;
           let field_type = data_type_h h;
           total_field_len \<leftarrow> u64 (field_off + field_len);
           foff \<leftarrow> u64 (offset + (1 - field_type) * field_off);
           flen \<leftarrow> u64 (field_len + field_type * field_off);
           dec_off' \<leftarrow> upd_chk dec_off i (loop_ind * foff);
           dec_len' \<leftarrow> upd_chk dec_len i (loop_ind * flen);
           dec_type' \<leftarrow> upd_chk dec_type i (loop_ind * field_type);
           offset' \<leftarrow> u64 (offset + loop_ind * total_field_len);
           nfields' \<leftarrow> u64 (nfields + loop_ind);
           Some (offset', nfields', dec_off', dec_len', dec_type') })"

definition decode1 :: "nat \<Rightarrow> u8 list \<Rightarrow> RLP_List option" where
  "decode1 NUM_FIELDS input =
     do { h \<leftarrow> decode_len input;
          let offset = offset_h h;
          let payload_len = length_h h;
          let input_type = data_type_h h;
          total_len \<leftarrow> u64 (payload_len + offset);
          _ \<leftarrow> noir_assert (input_type = LIST);
          _ \<leftarrow> noir_assert (total_len \<le> length input);
          (offset', nfields', dec_off, dec_len, dec_type) \<leftarrow>
            for_loop (decode1_body input total_len) [0..<NUM_FIELDS]
              (offset, 0, replicate NUM_FIELDS 0, replicate NUM_FIELDS 0, replicate NUM_FIELDS 0);
          _ \<leftarrow> noir_assert (total_len = offset');
          Some \<lparr>offset_l = dec_off, length_l = dec_len, data_type_l = dec_type,
                num_fields = nfields'\<rparr> }"

definition decode1_small_lis_body ::
    "u8 list \<Rightarrow> nat \<Rightarrow> nat \<Rightarrow> decode_state \<Rightarrow> decode_state option" where
  "decode1_small_lis_body input total_len i st =
     (case st of (offset, nfields, dec_off, dec_len, dec_type) \<Rightarrow>
      do { let loop_ind = ind (offset \<noteq> total_len);
           header \<leftarrow> nth_chk input offset;
           _ \<leftarrow> noir_assert (header < 0xb8);
           let field_type = STRING;
           let single_byte_ind = ind (header < 0x80);
           let field_off = 1 - single_byte_ind;
           let field_len = single_byte_ind * 1 + (1 - single_byte_ind) * unat (header - 0x80);
           total_field_len \<leftarrow> u64 (field_off + field_len);
           foff \<leftarrow> u64 (offset + field_off);
           dec_off' \<leftarrow> upd_chk dec_off i (loop_ind * foff);
           dec_len' \<leftarrow> upd_chk dec_len i (loop_ind * field_len);
           dec_type' \<leftarrow> upd_chk dec_type i (loop_ind * field_type);
           offset' \<leftarrow> u64 (offset + loop_ind * total_field_len);
           nfields' \<leftarrow> u64 (nfields + loop_ind);
           Some (offset', nfields', dec_off', dec_len', dec_type') })"

definition decode1_small_lis :: "nat \<Rightarrow> u8 list \<Rightarrow> RLP_List option" where
  "decode1_small_lis NUM_FIELDS input =
     do { h \<leftarrow> decode_len input;
          let offset = offset_h h;
          let payload_len = length_h h;
          let input_type = data_type_h h;
          total_len \<leftarrow> u64 (payload_len + offset);
          _ \<leftarrow> noir_assert (input_type = LIST);
          _ \<leftarrow> noir_assert (total_len \<le> length input);
          (offset', nfields', dec_off, dec_len, dec_type) \<leftarrow>
            for_loop (decode1_small_lis_body input total_len) [0..<NUM_FIELDS]
              (offset, 0, replicate NUM_FIELDS 0, replicate NUM_FIELDS 0, replicate NUM_FIELDS 0);
          _ \<leftarrow> noir_assert (total_len = offset');
          Some \<lparr>offset_l = dec_off, length_l = dec_len, data_type_l = dec_type,
                num_fields = nfields'\<rparr> }"

section \<open>node.nr\<close>

text \<open>
  \<open>keccak256(input, message_size)\<close> is the standard library's hash, not code of this
  repository: every function that hashes takes it as the parameter \<open>keccak256\<close>.
\<close>

definition key_as_nibbles :: "nat \<Rightarrow> u8 list \<Rightarrow> u8 list option" where
  "key_as_nibbles NIB_LEN key =
     (let KEY_LEN = length key in
      do { d \<leftarrow> u32 (2 * KEY_LEN);
           _ \<leftarrow> noir_assert (NIB_LEN = d);
           for_loop (\<lambda>i nibkey.
                 let nibs = byte_to_nibbles (key ! i)
                 in do { nibkey1 \<leftarrow> upd_chk nibkey (2 * i) (fst nibs);
                         upd_chk nibkey1 (2 * i + 1) (snd nibs) })
             [0..<KEY_LEN] (replicate NIB_LEN 0) })"

definition compact_decode_body ::
    "u8 list \<Rightarrow> u8 \<Rightarrow> nat \<Rightarrow> u8 list \<times> (u8 \<times> u8) \<Rightarrow> (u8 list \<times> (u8 \<times> u8)) option" where
  "compact_decode_body input parity i st =
     (case st of (nibble, prev_nibbles) \<Rightarrow>
      do { x \<leftarrow> nth_chk input (i + 1);
           let cur_nibbles = byte_to_nibbles x;
           nibble1 \<leftarrow> upd_chk nibble (2 * i)
                        (parity * snd prev_nibbles + (1 - parity) * fst cur_nibbles);
           nibble2 \<leftarrow> upd_chk nibble1 (2 * i + 1)
                        (parity * fst cur_nibbles + (1 - parity) * snd cur_nibbles);
           Some (nibble2, cur_nibbles) })"

definition compact_decode :: "nat \<Rightarrow> u8 list \<Rightarrow> nat \<Rightarrow> (u8 list \<times> nat) option" where
  "compact_decode NIB_LEN input len =
     (let MAX_ENC_LEN = length input in
      do { e2 \<leftarrow> u32 (2 * as_u32 MAX_ENC_LEN);
           n2 \<leftarrow> u32 (NIB_LEN + 2);
           _ \<leftarrow> noir_assert (e2 \<le> as_u32 n2);
           i0 \<leftarrow> nth_chk input 0;
           let prev_nibbles = byte_to_nibbles i0;
           let first_nibble = fst prev_nibbles;
           let parity = first_nibble AND 1;
           _ \<leftarrow> noir_assert (first_nibble < 4);
           _ \<leftarrow> noir_assert ((1 - parity) * snd prev_nibbles = 0);
           m1 \<leftarrow> sub_chk MAX_ENC_LEN 1;
           (nibble, last_nibbles) \<leftarrow>
             for_loop (compact_decode_body input parity) [0..<m1]
               (replicate NIB_LEN 0, prev_nibbles);
           s \<leftarrow> u64 (2 * len + unat parity);
           out_length \<leftarrow> sub_chk s 2;
           _ \<leftarrow> noir_assert (as_u32 out_length \<le> as_u32 NIB_LEN);
           Some (nibble, out_length) })"

definition resolve17 ::
    "u8 list \<Rightarrow> RLP_List \<Rightarrow> u8 list \<Rightarrow> nat \<Rightarrow> (u8 list \<times> nat \<times> nat) option" where
  "resolve17 node rlp_list key key_ptr =
     do { _ \<leftarrow> noir_assert (num_fields rlp_list = 17);
          _ \<leftarrow> for_loop (\<lambda>i _.
                   do { l \<leftarrow> nth_chk (length_l rlp_list) i;
                        noir_assert ((int l * (int l - int KEY_LENGTH)) mod int field_modulus = 0) })
                 [0..<16] ();
          l16 \<leftarrow> nth_chk (length_l rlp_list) 16;
          _ \<leftarrow> noir_assert (l16 = 0);
          cur_nibble \<leftarrow> nth_chk key key_ptr;
          resolved_key_length \<leftarrow> nth_chk (length_l rlp_list) (unat cur_nibble);
          _ \<leftarrow> noir_assert (resolved_key_length = KEY_LENGTH);
          _ \<leftarrow> noir_assert (as_u32 key_ptr < as_u32 NIBBLE_LENGTH);
          key_ptr' \<leftarrow> u64 (key_ptr + 1);
          nibble_offset \<leftarrow> nth_chk (offset_l rlp_list) (unat cur_nibble);
          resolved_key \<leftarrow>
            write_loop (\<lambda>j. do { k \<leftarrow> u64 (nibble_offset + j); nth_chk node k })
              (replicate KEY_LENGTH 0) [0..<KEY_LENGTH];
          Some (resolved_key, resolved_key_length, key_ptr') }"

definition resolve2_key_check :: "u8 list \<Rightarrow> nat \<Rightarrow> u8 list \<Rightarrow> nat \<Rightarrow> nat \<Rightarrow> unit option" where
  "resolve2_key_check nib niblen key key_ptr i =
     (if as_u32 i < as_u32 niblen
      then do { k \<leftarrow> u64 (key_ptr + i);
                a \<leftarrow> nth_chk nib i;
                b \<leftarrow> nth_chk key k;
                noir_assert (a = b) }
      else Some ())"

definition resolve2 ::
    "nat \<Rightarrow> u8 list \<Rightarrow> RLP_List \<Rightarrow> u8 list \<Rightarrow> nat \<Rightarrow> (nat \<times> u8 list \<times> nat \<times> nat) option" where
  "resolve2 MAX_VALUE_LEN node rlp_list key key_ptr =
     do { _ \<leftarrow> noir_assert (num_fields rlp_list = 2);
          off0 \<leftarrow> nth_chk (offset_l rlp_list) 0;
          first_slot \<leftarrow> take_dot_drop (1 + NIBBLE_LENGTH div 2) node off0;
          len0 \<leftarrow> nth_chk (length_l rlp_list) 0;
          (nib, niblen) \<leftarrow> compact_decode NIBBLE_LENGTH first_slot len0;
          d \<leftarrow> sub_chk NIBBLE_LENGTH key_ptr;
          _ \<leftarrow> noir_assert (as_u32 d \<ge> as_u32 niblen);
          _ \<leftarrow> for_loop (\<lambda>i _. resolve2_key_check nib niblen key key_ptr i)
                 [0..<NIBBLE_LENGTH] ();
          value_length \<leftarrow> nth_chk (length_l rlp_list) 1;
          _ \<leftarrow> noir_assert (as_u32 value_length \<le> as_u32 MAX_VALUE_LEN);
          key_ptr' \<leftarrow> u64 (key_ptr + niblen);
          off1 \<leftarrow> nth_chk (offset_l rlp_list) 1;
          e \<leftarrow> u64 (off1 + MAX_VALUE_LEN);
          _ \<leftarrow> noir_assert (as_u32 e \<le> as_u32 (length node));
          val \<leftarrow>
            write_loop (\<lambda>i. do { k \<leftarrow> u64 (off1 + i); nth_chk node k })
              (replicate MAX_VALUE_LEN 0) [0..<MAX_VALUE_LEN];
          f0 \<leftarrow> nth_chk first_slot 0;
          let node_type_nibble = drop_bit 4 f0;
          Some (ind (node_type_nibble > 1), val, value_length, key_ptr') }"

definition resolve_nibble32 :: "u8 list \<Rightarrow> nat \<Rightarrow> u8 list \<Rightarrow> (nat \<times> u8 list \<times> nat) option" where
  "resolve_nibble32 key key_ptr node =
     do { rlp_list \<leftarrow> decode1_small_lis MAX_NUM_FIELDS node;
          let nf = num_fields rlp_list;
          (node_type, resolved_key, resolved_key_length, key_ptr') \<leftarrow>
            (if nf = 2
             then do { (t, k, l, p) \<leftarrow> resolve2 KEY_LENGTH node rlp_list key key_ptr;
                       Some (t, k, l, p) }
             else do { l16 \<leftarrow> nth_chk (length_l rlp_list) 16;
                       _ \<leftarrow> noir_assert (l16 = 0);
                       (k, l, p) \<leftarrow> resolve17 node rlp_list key key_ptr;
                       Some (BRANCH, k, l, p) });
          _ \<leftarrow> noir_assert (node_type = LEAF \<or> resolved_key_length = KEY_LENGTH);
          Some (node_type, resolved_key, key_ptr') }"

definition verify_node_hash ::
    "(u8 list \<Rightarrow> nat \<Rightarrow> u8 list) \<Rightarrow> u8 list \<Rightarrow> u8 list \<Rightarrow> bool option" where
  "verify_node_hash keccak256 node hash =
     do { rlp_header \<leftarrow> decode_len node;
          node_length \<leftarrow> u64 (offset_h rlp_header + length_h rlp_header);
          let in_range = ind (as_u32 node_length > as_u32 (length node));
          safe_length \<leftarrow> u64 (in_range * length node + (1 - in_range) * node_length);
          let node_hash = keccak256 node (as_u32 safe_length);
          Some (node_hash = hash) }"

definition verify_internal_node ::
    "(u8 list \<Rightarrow> nat \<Rightarrow> u8 list) \<Rightarrow> u8 list \<times> nat \<Rightarrow> u8 list \<Rightarrow> u8 list \<Rightarrow> nat \<Rightarrow> nat
       \<Rightarrow> (u8 list \<times> nat) option" where
  "verify_internal_node keccak256 refs key_nibbles path depth cur_depth =
     (case refs of (extracted_hash, key_ptr) \<Rightarrow>
      do { d1 \<leftarrow> sub_chk depth 1;
           let in_range = (as_u8 cur_depth < as_u8 d1);
           let cur_depth_or_0 = (if in_range then cur_depth else 0);
           off \<leftarrow> u64 (cur_depth_or_0 * MAX_TRIE_NODE_LENGTH);
           node \<leftarrow> memcpy (replicate MAX_TRIE_NODE_LENGTH 0) path (as_u32 off);
           ok \<leftarrow> verify_node_hash keccak256 node extracted_hash;
           _ \<leftarrow> noir_assert (\<not> in_range \<or> ok);
           (node_type, resolved_key, key_pointer) \<leftarrow>
             resolve_nibble32 key_nibbles (if in_range then key_ptr else 0) node;
           _ \<leftarrow> noir_assert (\<not> in_range \<or> node_type \<noteq> LEAF);
           Some (if in_range then resolved_key else extracted_hash,
                 if in_range then key_pointer else key_ptr) })"

section \<open>trie_proof.nr, storage_proof.nr and the state proof\<close>

record TrieProof =
  key_tp :: "u8 list"
  proof_tp :: "u8 list"
  depth_tp :: nat
  value_tp :: "u8 list"

definition verify_storage_leaf_node ::
    "(u8 list \<Rightarrow> nat \<Rightarrow> u8 list) \<Rightarrow> TrieProof \<Rightarrow> u8 list \<Rightarrow> nat \<Rightarrow> nat \<Rightarrow> u8 list \<Rightarrow> unit option" where
  "verify_storage_leaf_node keccak256 self hash key_len key_ptr key_nibbles =
     do { (val, value_length) \<leftarrow> byte_value (value_tp self);
          d1 \<leftarrow> sub_chk (depth_tp self) 1;
          off \<leftarrow> u32 (as_u32 d1 * MAX_TRIE_NODE_LENGTH);
          leaf_node \<leftarrow> memcpy (replicate MAX_TRIE_NODE_LENGTH 0) (proof_tp self) off;
          ok \<leftarrow> verify_node_hash keccak256 leaf_node hash;
          _ \<leftarrow> noir_assert ok;
          rlp_list \<leftarrow> decode1_small_lis 2 leaf_node;
          (node_type, extracted_value, extracted_value_length, terminal_key_ptr) \<leftarrow>
            resolve2 33 leaf_node rlp_list key_nibbles key_ptr;
          _ \<leftarrow> noir_assert (node_type = LEAF);
          m \<leftarrow> u32 (as_u32 MAX_STORAGE_VALUE_LENGTH + 1);
          _ \<leftarrow> noir_assert (as_u32 extracted_value_length \<le> m);
          k2 \<leftarrow> u64 (2 * key_len);
          _ \<leftarrow> noir_assert (terminal_key_ptr = k2);
          (dec_value_offset, dec_value_len) \<leftarrow> decode0 extracted_value;
          _ \<leftarrow> noir_assert (dec_value_len = value_length);
          assert_subarray val extracted_value value_length (as_u32 dec_value_offset) }"

definition verify_storage_root ::
    "(u8 list \<Rightarrow> nat \<Rightarrow> u8 list) \<Rightarrow> TrieProof \<Rightarrow> u8 list \<Rightarrow> bool option" where
  "verify_storage_root keccak256 self storage_root =
     do { _ \<leftarrow> noir_assert (length (proof_tp self) mod MAX_TRIE_NODE_LENGTH = 0);
          let key = keccak256 (key_tp self) 32;
          key_nibbles \<leftarrow> key_as_nibbles NIBBLE_LENGTH key;
          let path = proof_tp self;
          let depth = depth_tp self;
          n \<leftarrow> sub_chk (length path div MAX_TRIE_NODE_LENGTH) 1;
          (extracted_hash, key_ptr) \<leftarrow>
            for_loop (\<lambda>i refs. verify_internal_node keccak256 refs key_nibbles path depth i)
              [0..<n] (storage_root, 0);
          _ \<leftarrow> verify_storage_leaf_node keccak256 self extracted_hash (length key) key_ptr key_nibbles;
          Some True }"

definition verify_state_leaf_node ::
    "nat \<Rightarrow> (u8 list \<Rightarrow> nat \<Rightarrow> u8 list) \<Rightarrow> TrieProof \<Rightarrow> u8 list \<Rightarrow> nat \<Rightarrow> nat \<Rightarrow> u8 list
       \<Rightarrow> unit option" where
  "verify_state_leaf_node MAX_ACCOUNT_STATE_LENGTH keccak256 self extracted_hash key_len key_ptr
       key_nibbles =
     (let MAX_VALUE_LEN = length (value_tp self) in
      do { (val, value_length) \<leftarrow> byte_value (value_tp self);
           d1 \<leftarrow> sub_chk (depth_tp self) 1;
           off \<leftarrow> u32 (as_u32 d1 * MAX_TRIE_NODE_LENGTH);
           leaf_node \<leftarrow> memcpy (replicate MAX_TRIE_NODE_LENGTH 0) (proof_tp self) off;
           ok \<leftarrow> verify_node_hash keccak256 leaf_node extracted_hash;
           _ \<leftarrow> noir_assert ok;
           rlp_list \<leftarrow> decode1 2 leaf_node;
           (node_type, extracted_value, extracted_value_length, terminal_key_ptr) \<leftarrow>
             resolve2 MAX_ACCOUNT_STATE_LENGTH leaf_node rlp_list key_nibbles key_ptr;
           _ \<leftarrow> noir_assert (node_type = LEAF);
           _ \<leftarrow> noir_assert (as_u32 extracted_value_length \<le> as_u32 MAX_VALUE_LEN);
           k2 \<leftarrow> u64 (2 * key_len);
           _ \<leftarrow> noir_assert (terminal_key_ptr = k2);
           v0 \<leftarrow> nth_chk extracted_value 0;
           _ \<leftarrow> noir_assert (v0 \<ge> 0xc0);
           _ \<leftarrow> noir_assert (extracted_value_length = value_length);
           assert_subarray val extracted_value value_length 0 })"

definition verify_state_root ::
    "nat \<Rightarrow> (u8 list \<Rightarrow> nat \<Rightarrow> u8 list) \<Rightarrow> TrieProof \<Rightarrow> u8 list \<Rightarrow> bool option" where
  "verify_state_root MAX_ACCOUNT_STATE_LENGTH keccak256 self state_root =
     do { _ \<leftarrow> noir_assert (length (proof_tp self) mod MAX_TRIE_NODE_LENGTH = 0);
          let key = keccak256 (key_tp self) 20;
          key_nibbles \<leftarrow> key_as_nibbles NIBBLE_LENGTH key;
          let path = proof_tp self;
          let depth = depth_tp self;
          n \<leftarrow> sub_chk (length path div MAX_TRIE_NODE_LENGTH) 1;
          (extracted_hash, key_ptr) \<leftarrow>
            for_loop (\<lambda>i refs. verify_internal_node keccak256 refs key_nibbles path depth i)
              [0..<n] (state_root, 0);
          _ \<leftarrow> verify_state_leaf_node MAX_ACCOUNT_STATE_LENGTH keccak256 self extracted_hash
                 (length key) key_ptr key_nibbles;
          Some True }"

section \<open>Notions the properties are stated with\<close>

text \<open>The number of leading zero bytes of an array.\<close>

definition lead_zeros :: "u8 list \<Rightarrow> nat" where
  "lead_zeros xs = length (takeWhile (\<lambda>b. b = 0) xs)"

text \<open>The big-endian value of a sequence of bytes.\<close>

definition be_bytes :: "u8 list \<Rightarrow> nat" where
  "be_bytes bs = foldl (\<lambda>acc b. 256 * acc + unat b) 0 bs"

text \<open>
  Hex-prefix encoding, as the Ethereum specification defines it: the nibbles of a byte
  sequence (most significant first), and the nibble path a hex-prefix encoded field stands
  for (an odd flag nibble makes the low nibble of the first byte the first path nibble).
\<close>

definition nibbles_of :: "u8 list \<Rightarrow> u8 list" where
  "nibbles_of bs = concat (map (\<lambda>b. [drop_bit 4 b, b AND 15]) bs)"

definition hp_path :: "u8 list \<Rightarrow> u8 list" where
  "hp_path field =
     (if odd (drop_bit 4 (hd field)) then [hd field AND 15] else []) @ nibbles_of (tl field)"

text \<open>
  Nibble \<open>k\<close> of the array \<open>compact_decode\<close> fills from its input, for an odd or an even
  number of nibbles.
\<close>

definition compact_nibble :: "u8 list \<Rightarrow> bool \<Rightarrow> nat \<Rightarrow> u8" where
  "compact_nibble input odd_len k =
     (let i = k div 2 in
      if even k then (if odd_len then input ! i AND 15 else drop_bit 4 (input ! (i + 1)))
      else (if odd_len then drop_bit 4 (input ! (i + 1)) else input ! (i + 1) AND 15))"

text \<open>
  The fields of a list table. Field \<open>j\<close> starts where field \<open>j - 1\<close> ends (field 0 at the
  payload offset \<open>off0\<close> of the list). \<open>field_decoded\<close> says that entry \<open>j\<close> of the table is
  the item whose RLP header stands at that start: for a string item the recorded offset is
  the first payload byte and the recorded length the payload length; for a list item the
  recorded offset is the item's header and the recorded length includes the header.
\<close>

definition field_start :: "nat \<Rightarrow> nat list \<Rightarrow> nat list \<Rightarrow> nat \<Rightarrow> nat" where
  "field_start off0 dec_off dec_len j =
     (if j = 0 then off0 else dec_off ! (j - 1) + dec_len ! (j - 1))"

definition field_decoded :: "u8 list \<Rightarrow> nat \<Rightarrow> nat list \<Rightarrow> nat list \<Rightarrow> nat list \<Rightarrow> nat \<Rightarrow> bool" where
  "field_decoded input off0 dec_off dec_len dec_type j =
     (let start = field_start off0 dec_off dec_len j in
      case take_dot_drop (MAX_LEN_IN_BYTES + 1) input start of
        None \<Rightarrow> False
      | Some header \<Rightarrow>
          (case decode_len header of
             None \<Rightarrow> False
           | Some fh \<Rightarrow>
               dec_type ! j = data_type_h fh \<and>
               (if data_type_h fh = STRING
                then dec_off ! j = start + offset_h fh \<and> dec_len ! j = length_h fh
                else data_type_h fh = LIST \<and> dec_off ! j = start
                     \<and> dec_len ! j = offset_h fh + length_h fh)))"

definition decode1_inv :: "u8 list \<Rightarrow> nat \<Rightarrow> nat \<Rightarrow> nat \<Rightarrow> nat \<Rightarrow> decode_state \<Rightarrow> bool" where
  "decode1_inv input F off0 total_len i st =
     (case st of (offset, nfields, dec_off, dec_len, dec_type) \<Rightarrow>
        length dec_off = F \<and> length dec_len = F \<and> length dec_type = F
        \<and> nfields \<le> i \<and> (nfields < i \<longrightarrow> offset = total_len)
        \<and> offset = field_start off0 dec_off dec_len nfields
        \<and> (\<forall>j<nfields. dec_off ! j + dec_len ! j \<le> offset
                        \<and> field_decoded input off0 dec_off dec_len dec_type j)
        \<and> (\<forall>j. nfields \<le> j \<and> j < F \<longrightarrow> dec_off ! j = 0 \<and> dec_len ! j = 0 \<and> dec_type ! j = 0))"

section \<open>The references along the driver loop\<close>

text \<open>
  The drivers run \<open>for i in 0..n { verify_internal_node(&mut extracted_hash, &mut key_ptr,
  key_nibbles, path, depth, i) }\<close>.  \<open>internal_steps\<close> is that loop, recording the pair of
  references \<open>(extracted_hash, key_ptr)\<close> before each iteration and after the last one; its
  last element is the loop's result.
\<close>

fun internal_steps ::
    "(u8 list \<Rightarrow> nat \<Rightarrow> u8 list) \<Rightarrow> u8 list \<Rightarrow> u8 list \<Rightarrow> nat \<Rightarrow> nat list \<Rightarrow> u8 list \<times> nat
       \<Rightarrow> (u8 list \<times> nat) list option" where
  "internal_steps keccak256 key_nibbles path depth [] refs = Some [refs]"
| "internal_steps keccak256 key_nibbles path depth (i # is) refs =
     (case verify_internal_node keccak256 refs key_nibbles path depth i of
        None \<Rightarrow> None
      | Some refs' \<Rightarrow>
          (case internal_steps keccak256 key_nibbles path depth is refs' of
             None \<Rightarrow> None
           | Some rest \<Rightarrow> Some (refs # rest)))"

text \<open>
  The nibble cursor of a run.  \<open>cursor_trace\<close> is the sequence of values of \<open>key_ptr\<close> along
  the driver loop of \<open>verify_storage_root\<close> (which hashes \<open>msg_len = 32\<close> key bytes) and of
  \<open>verify_state_root\<close> (\<open>msg_len = 20\<close>): the initial value, then the value after each
  \<open>verify_internal_node\<close>.  \<open>terminal_cursor\<close> is the \<open>terminal_key_ptr\<close> that the leaf
  verifier gets from \<open>resolve2\<close> on the window at \<open>depth - 1\<close>, decoded with
  \<open>decode1_small_lis\<close> (storage) or \<open>decode1\<close> (state) and resolved from the cursor
  \<open>key_ptr\<close> that the loop left.
\<close>

definition cursor_trace ::
    "(u8 list \<Rightarrow> nat \<Rightarrow> u8 list) \<Rightarrow> nat \<Rightarrow> TrieProof \<Rightarrow> u8 list \<Rightarrow> nat list option" where
  "cursor_trace keccak256 msg_len self root =
     do { key_nibbles \<leftarrow> key_as_nibbles NIBBLE_LENGTH (keccak256 (key_tp self) msg_len);
          n \<leftarrow> sub_chk (length (proof_tp self) div MAX_TRIE_NODE_LENGTH) 1;
          states \<leftarrow> internal_steps keccak256 key_nibbles (proof_tp self) (depth_tp self)
                      [0..<n] (root, 0);
          Some (map snd states) }"

definition terminal_cursor ::
    "(u8 list \<Rightarrow> nat \<Rightarrow> u8 list) \<Rightarrow> nat \<Rightarrow> (u8 list \<Rightarrow> RLP_List option) \<Rightarrow> nat \<Rightarrow> TrieProof \<Rightarrow> nat
       \<Rightarrow> nat option" where
  "terminal_cursor keccak256 msg_len decode MAX_VALUE_LEN self key_ptr =
     do { key_nibbles \<leftarrow> key_as_nibbles NIBBLE_LENGTH (keccak256 (key_tp self) msg_len);
          d1 \<leftarrow> sub_chk (depth_tp self) 1;
          off \<leftarrow> u32 (as_u32 d1 * MAX_TRIE_NODE_LENGTH);
          leaf_node \<leftarrow> memcpy (replicate MAX_TRIE_NODE_LENGTH 0) (proof_tp self) off;
          rlp_list \<leftarrow> decode leaf_node;
          (node_type, extracted_value, extracted_value_length, terminal_key_ptr) \<leftarrow>
            resolve2 MAX_VALUE_LEN leaf_node rlp_list key_nibbles key_ptr;
          Some terminal_key_ptr }"

section \<open>Example inputs\<close>

text \<open>
  A branch node with one child (the hash \<open>0xab \<dots> 0xab\<close> in slot 0) and sixteen empty
  slots, its field table, the same node in a 532-byte window, and a key whose nibbles are
  all zero.
\<close>

definition branch_node :: "u8 list" where
  "branch_node = [0xf1, 0xa0] @ replicate 32 0xab @ replicate 16 0x80"

definition branch_table :: RLP_List where
  "branch_table = \<lparr>offset_l = 2 # [35..<51], length_l = 32 # replicate 16 0,
                    data_type_l = replicate 17 0, num_fields = 17\<rparr>"

definition branch_window :: "u8 list" where
  "branch_window = branch_node @ replicate 482 0"

definition zero_nibbles :: "u8 list" where
  "zero_nibbles = replicate 64 0"

text \<open>
  A storage leaf whose path is the 64 zero nibbles and whose value is \<open>0x1234\<close>
  (RLP \<open>0x82 0x12 0x34\<close>), in a 532-byte window, and its field table.
\<close>

definition storage_leaf :: "u8 list" where
  "storage_leaf = [0xe6, 0xa1, 0x20] @ replicate 32 0 @ [0x83, 0x82, 0x12, 0x34]"

definition storage_leaf_window :: "u8 list" where
  "storage_leaf_window = storage_leaf @ replicate 493 0"

definition storage_leaf_table :: RLP_List where
  "storage_leaf_table = \<lparr>offset_l = [2, 36], length_l = [33, 3], data_type_l = [0, 0],
                          num_fields = 2\<rparr>"

text \<open>
  A two-node storage proof: the branch node above, then a leaf whose path is the remaining
  63 zero nibbles (hex-prefix \<open>0x30 0x00 \<dots>\<close>) and whose value is \<open>0x1234\<close>.  \<open>toy_hash\<close>
  stands for \<open>keccak256\<close>: it tells the branch node (50 bytes), the leaf (38 bytes) and the
  keys apart by the length hashed, which is all the runs below need.
\<close>

definition odd_leaf :: "u8 list" where
  "odd_leaf = [0xe5, 0xa0, 0x30] @ replicate 31 0 @ [0x83, 0x82, 0x12, 0x34]"

definition odd_leaf_window :: "u8 list" where
  "odd_leaf_window = odd_leaf @ replicate 494 0"

definition odd_leaf_table :: RLP_List where
  "odd_leaf_table = \<lparr>offset_l = [2, 35], length_l = [32, 3], data_type_l = [0, 0],
                      num_fields = 2\<rparr>"

definition toy_hash :: "u8 list \<Rightarrow> nat \<Rightarrow> u8 list" where
  "toy_hash node n =
     (if n = 50 then replicate 32 1 else if n = 38 then replicate 32 0xab else replicate 32 0)"

definition storage_run :: TrieProof where
  "storage_run = \<lparr>key_tp = replicate 32 0, proof_tp = branch_window @ odd_leaf_window,
                   depth_tp = 2, value_tp = replicate 30 0 @ [0x12, 0x34]\<rparr>"

text \<open>
  A one-node state proof for a 20-byte address: a leaf whose path is the 64 nibbles of the
  hashed address and whose value is the RLP list \<open>0xc2 0x01 0x02\<close>.
\<close>

definition state_leaf :: "u8 list" where
  "state_leaf = [0xe6, 0xa1, 0x20] @ replicate 32 0 @ [0x83, 0xc2, 0x01, 0x02]"

definition state_leaf_window :: "u8 list" where
  "state_leaf_window = state_leaf @ replicate 493 0"

definition state_run :: TrieProof where
  "state_run = \<lparr>key_tp = replicate 20 0, proof_tp = state_leaf_window, depth_tp = 1,
                 value_tp = [0xc2, 0x01, 0x02]\<rparr>"

text \<open>
  The 532-byte window of a branch node whose only child, in slot 0, is the 32-byte hash
  \<open>c\<close>.  Its field table is \<open>branch_table\<close> for every \<open>c\<close>.
\<close>

definition branch_with :: "u8 list \<Rightarrow> u8 list" where
  "branch_with c = [0xf1, 0xa0] @ c @ replicate 16 0x80 @ replicate 482 0"

text \<open>
  Two long proof paths.  \<open>wide_path c\<close> has 257 windows, the first a branch node.
  \<open>deep_path keccak256 c\<close> has 258 windows: window 256 is the branch node with child \<open>c\<close>,
  and window 0 is the branch node whose child is the hash of window 256.
\<close>

definition wide_path :: "u8 list \<Rightarrow> u8 list" where
  "wide_path c = branch_with c @ replicate (256 * 532) 0"

definition deep_path :: "(u8 list \<Rightarrow> nat \<Rightarrow> u8 list) \<Rightarrow> u8 list \<Rightarrow> u8 list" where
  "deep_path keccak256 c =
     branch_with (keccak256 (branch_with c) 50) @ replicate (255 * 532) 0
       @ branch_with c @ replicate 532 0"

section \<open>Checked operations\<close>

lemma noir_assert_Some [simp]: "(noir_assert b = Some u) = b"
  by (simp add: noir_assert_def)

lemma noir_assert_None [simp]: "(noir_assert b = None) = (\<not> b)"
  by (simp add: noir_assert_def)

lemma u32_Some [simp]: "(u32 x = Some y) = (x < 2 ^ 32 \<and> y = x)"
  by (auto simp: u32_def)

lemma u32_None [simp]: "(u32 x = None) = (\<not> x < 2 ^ 32)"
  by (simp add: u32_def)

lemma u64_Some [simp]: "(u64 x = Some y) = (x < 2 ^ 64 \<and> y = x)"
  by (auto simp: u64_def)

lemma u64_None [simp]: "(u64 x = None) = (\<not> x < 2 ^ 64)"
  by (simp add: u64_def)

lemma sub_chk_Some [simp]: "(sub_chk a b = Some c) = (b \<le> a \<and> c = a - b)"
  by (auto simp: sub_chk_def)

lemma sub_chk_None [simp]: "(sub_chk a b = None) = (a < b)"
  by (auto simp: sub_chk_def)

lemma nth_chk_Some [simp]: "(nth_chk xs i = Some x) = (i < length xs \<and> x = xs ! i)"
  by (auto simp: nth_chk_def)

lemma nth_chk_None [simp]: "(nth_chk xs i = None) = (length xs \<le> i)"
  by (auto simp: nth_chk_def)

lemma upd_chk_Some [simp]: "(upd_chk xs i v = Some ys) = (i < length xs \<and> ys = xs[i := v])"
  by (auto simp: upd_chk_def)

lemma upd_chk_None [simp]: "(upd_chk xs i v = None) = (length xs \<le> i)"
  by (auto simp: upd_chk_def)

lemma u32_eval [simp]: "x < 2 ^ 32 \<Longrightarrow> u32 x = Some x"
  by (simp add: u32_def)

lemma u64_eval [simp]: "x < 2 ^ 64 \<Longrightarrow> u64 x = Some x"
  by (simp add: u64_def)

lemma sub_chk_eval [simp]: "b \<le> a \<Longrightarrow> sub_chk a b = Some (a - b)"
  by (simp add: sub_chk_def)

lemma nth_chk_eval [simp]: "i < length xs \<Longrightarrow> nth_chk xs i = Some (xs ! i)"
  by (simp add: nth_chk_def)

lemma upd_chk_eval [simp]: "i < length xs \<Longrightarrow> upd_chk xs i v = Some (xs[i := v])"
  by (simp add: upd_chk_def)

lemma noir_assert_eval [simp]: "b \<Longrightarrow> noir_assert b = Some ()"
  by (simp add: noir_assert_def)

lemma u32_fail [simp]: "\<not> x < 2 ^ 32 \<Longrightarrow> u32 x = None"
  by (simp add: u32_def)

lemma u64_fail [simp]: "\<not> x < 2 ^ 64 \<Longrightarrow> u64 x = None"
  by (simp add: u64_def)

lemma sub_chk_fail [simp]: "a < b \<Longrightarrow> sub_chk a b = None"
  by (simp add: sub_chk_def)

lemma nth_chk_fail [simp]: "length xs \<le> i \<Longrightarrow> nth_chk xs i = None"
  by (simp add: nth_chk_def)

lemma upd_chk_fail [simp]: "length xs \<le> i \<Longrightarrow> upd_chk xs i v = None"
  by (simp add: upd_chk_def)

lemma noir_assert_False [simp]: "noir_assert False = None"
  by (simp add: noir_assert_def)

lemma noir_assert_fail [simp]: "\<not> b \<Longrightarrow> noir_assert b = None"
  by (simp add: noir_assert_def)

lemma ind_simps [simp]: "ind True = 1" "ind False = 0"
  by (simp_all add: ind_def)

lemma ind_le_1: "ind b \<le> 1"
  by (simp add: ind_def)

section \<open>Loops\<close>

lemma for_loop_append:
  "for_loop body (xs @ ys) s =
     (case for_loop body xs s of None \<Rightarrow> None | Some s' \<Rightarrow> for_loop body ys s')"
  by (induction xs arbitrary: s) (auto split: option.splits)

lemma for_loop_snoc:
  "for_loop body (xs @ [n]) s =
     (case for_loop body xs s of None \<Rightarrow> None | Some s' \<Rightarrow> body n s')"
  by (simp add: for_loop_append split: option.splits)

lemma for_loop_invariant:
  assumes "for_loop body [0..<n] s0 = Some s" and "P 0 s0"
    and "\<And>i t t'. i < n \<Longrightarrow> P i t \<Longrightarrow> body i t = Some t' \<Longrightarrow> P (Suc i) t'"
  shows "P n s"
  using assms
proof (induction n arbitrary: s)
  case 0
  then show ?case by simp
next
  case (Suc n)
  from Suc.prems(1) obtain t where t: "for_loop body [0..<n] s0 = Some t"
    and b: "body n t = Some s"
    by (auto simp: for_loop_snoc split: option.splits)
  have "P n t"
    by (rule Suc.IH [OF t Suc.prems(2)]) (rule Suc.prems(3), simp_all)
  then show ?case
    using Suc.prems(3) [of n t s] b by simp
qed

lemma write_loop_snoc:
  "write_loop f out (xs @ [m]) =
     (case write_loop f out xs of None \<Rightarrow> None
      | Some ys \<Rightarrow> (case f m of None \<Rightarrow> None | Some v \<Rightarrow> upd_chk ys m v))"
  by (simp add: write_loop_def for_loop_snoc)

lemma write_loop_gen:
  "m \<le> length out \<Longrightarrow>
   (write_loop f out [0..<m] = Some xs) =
   (length xs = length out \<and> (\<forall>i<m. f i = Some (xs ! i)) \<and>
    (\<forall>i. m \<le> i \<longrightarrow> i < length out \<longrightarrow> xs ! i = out ! i))"
proof (induction m arbitrary: xs)
  case 0
  then show ?case
    by (auto simp: write_loop_def list_eq_iff_nth_eq)
next
  case (Suc m)
  then have m: "m < length out" by simp
  show ?case
  proof
    assume "write_loop f out [0..<Suc m] = Some xs"
    then obtain ys v where ys: "write_loop f out [0..<m] = Some ys"
      and v: "f m = Some v" and xs: "xs = ys[m := v]" and "m < length ys"
      by (auto simp: write_loop_snoc split: option.splits)
    from ys Suc.IH [of ys] m
    have a: "length ys = length out" "\<forall>i<m. f i = Some (ys ! i)"
      "\<forall>i. m \<le> i \<longrightarrow> i < length out \<longrightarrow> ys ! i = out ! i"
      by simp_all
    show "length xs = length out \<and> (\<forall>i<Suc m. f i = Some (xs ! i)) \<and>
          (\<forall>i. Suc m \<le> i \<longrightarrow> i < length out \<longrightarrow> xs ! i = out ! i)"
      using a v m by (auto simp: xs less_Suc_eq nth_list_update)
  next
    assume r: "length xs = length out \<and> (\<forall>i<Suc m. f i = Some (xs ! i)) \<and>
          (\<forall>i. Suc m \<le> i \<longrightarrow> i < length out \<longrightarrow> xs ! i = out ! i)"
    define ys where "ys = xs[m := out ! m]"
    have "write_loop f out [0..<m] = Some ys"
      using r m Suc.IH [of ys] by (auto simp: ys_def nth_list_update)
    moreover have "f m = Some (xs ! m)" using r by simp
    moreover have "ys[m := xs ! m] = xs" by (simp add: ys_def)
    moreover have "m < length ys" using r m by (simp add: ys_def)
    ultimately show "write_loop f out [0..<Suc m] = Some xs"
      by (simp add: write_loop_snoc)
  qed
qed

lemma write_loop_Some:
  "length out = n \<Longrightarrow>
   (write_loop f out [0..<n] = Some xs) = (length xs = n \<and> (\<forall>i<n. f i = Some (xs ! i)))"
  by (auto simp: write_loop_gen)

lemma write_loop_map:
  assumes "length out = n" and "\<And>i. i < n \<Longrightarrow> f i = Some (g i)"
  shows "write_loop f out [0..<n] = Some (map g [0..<n])"
  using assms by (simp add: write_loop_Some)

section \<open>utils.nr\<close>

lemma memcpy_Some_iff:
  "(memcpy dest src off = Some d) =
   (length d = length dest \<and>
    (\<forall>i<length dest. off + i < 2 ^ 32 \<and> off + i < length src \<and> d ! i = src ! (off + i)))"
  by (auto simp: memcpy_def write_loop_Some Option.bind_eq_Some_conv)

lemma memcpy_window:
  assumes "off + length dest \<le> length src" and "length src \<le> 2 ^ 32"
  shows "memcpy dest src off = Some (take (length dest) (drop off src))"
  using assms by (auto simp: memcpy_Some_iff)

lemma memcpy_SomeD:
  assumes "memcpy dest src off = Some d" and "dest \<noteq> []"
  shows "off + length dest \<le> length src \<and> d = take (length dest) (drop off src)"
proof -
  from assms(1) have l: "length d = length dest"
    and a: "\<And>i. i < length dest \<Longrightarrow> off + i < length src \<and> d ! i = src ! (off + i)"
    by (simp_all add: memcpy_Some_iff)
  from assms(2) have p: "0 < length dest" by simp
  then have "length dest - 1 < length dest" by simp
  from a [OF this] have "off + (length dest - 1) < length src" by (rule conjunct1)
  with p have b: "off + length dest \<le> length src" by linarith
  with l a have "d = take (length dest) (drop off src)"
    by (auto simp: list_eq_iff_nth_eq)
  with b show ?thesis by simp
qed

lemma as_u32_id: "x < 2 ^ 32 \<Longrightarrow> as_u32 x = x"
  by (simp add: as_u32_def)

lemma as_u64_id: "x < 2 ^ 64 \<Longrightarrow> as_u64 x = x"
  by (simp add: as_u64_def)

lemma left_byte_shift_eq:
  assumes "n \<le> length input" and "length input + n < 2 ^ 32"
  shows "left_byte_shift input n = Some (drop n input @ replicate n 0)"
proof -
  let ?N = "length input"
  have "\<And>i. i < ?N \<Longrightarrow>
     (do { s \<leftarrow> u32 (i + n);
           let index_ind = ind (as_u32 s < as_u32 ?N);
           b \<leftarrow> nth_chk input (index_ind * s);
           Some (of_nat index_ind * b) }) = Some ((drop n input @ replicate n 0) ! i)"
  proof -
    fix i assume i: "i < ?N"
    then have s: "i + n < 2 ^ 32" and N': "?N < 2 ^ 32" using assms by linarith+
    show "(do { s \<leftarrow> u32 (i + n);
           let index_ind = ind (as_u32 s < as_u32 ?N);
           b \<leftarrow> nth_chk input (index_ind * s);
           Some (of_nat index_ind * b) }) = Some ((drop n input @ replicate n 0) ! i)"
    proof (cases "i + n < ?N")
      case True
      then have "i < length input - n" by linarith
      then show ?thesis using True s N' i
        by (simp add: as_u32_id nth_append add.commute)
    next
      case False
      then have "\<not> i < length input - n" by linarith
      moreover from i have "input \<noteq> []" by auto
      ultimately show ?thesis using False s N' i assms(1)
        by (simp add: as_u32_id nth_append)
    qed
  qed
  then show ?thesis
    using assms(1) by (simp add: left_byte_shift_def Let_def write_loop_Some)
qed

lemma byte_value_loop:
  assumes "length b < 2 ^ 32"
  shows "for_loop (\<lambda>i value_length.
                   let num_bytes_ind = ind (value_length = 0);
                       byte_ind = ind (b ! i \<noteq> 0)
                   in do { d \<leftarrow> sub_chk (length b) i;
                           u32 (num_bytes_ind * byte_ind * d + (1 - num_bytes_ind) * value_length) })
               [0..<m] 0 = Some (if m \<le> lead_zeros b then 0 else length b - lead_zeros b)
         \<or> length b < m"
proof (induction m)
  case 0
  then show ?case by simp
next
  case (Suc m)
  show ?case
  proof (cases "length b < Suc m")
    case True
    then show ?thesis by simp
  next
    case False
    then have m: "m < length b" by simp
    with Suc have IH: "for_loop (\<lambda>i value_length.
                   let num_bytes_ind = ind (value_length = 0);
                       byte_ind = ind (b ! i \<noteq> 0)
                   in do { d \<leftarrow> sub_chk (length b) i;
                           u32 (num_bytes_ind * byte_ind * d + (1 - num_bytes_ind) * value_length) })
               [0..<m] 0 = Some (if m \<le> lead_zeros b then 0 else length b - lead_zeros b)"
      by simp
    have lz: "lead_zeros b \<le> length b"
      by (simp add: lead_zeros_def length_takeWhile_le)
    have nz: "lead_zeros b < length b \<Longrightarrow> b ! lead_zeros b \<noteq> 0"
      unfolding lead_zeros_def by (rule nth_length_takeWhile)
    have z: "\<And>j. j < lead_zeros b \<Longrightarrow> b ! j = 0"
      unfolding lead_zeros_def
      using takeWhile_nth [of _ "\<lambda>b. b = 0" b] nth_mem [of _ "takeWhile (\<lambda>b. b = 0) b"]
        set_takeWhileD [of _ "\<lambda>b. b = 0" b]
      by metis
    consider (lt) "m < lead_zeros b" | (eq) "m = lead_zeros b" | (gt) "lead_zeros b < m"
      by linarith
    then show ?thesis
    proof cases
      case lt
      then show ?thesis using IH m z [of m] assms
        by (simp add: for_loop_snoc Let_def)
    next
      case eq
      then show ?thesis using IH m nz assms
        by (simp add: for_loop_snoc Let_def)
    next
      case gt
      then show ?thesis using IH m lz assms
        by (simp add: for_loop_snoc Let_def)
    qed
  qed
qed

lemma byte_value_eq:
  assumes "length b < 2 ^ 31"
  shows "byte_value b =
     Some (if lead_zeros b = length b then (b, 0)
           else (drop (lead_zeros b) b @ replicate (lead_zeros b) 0, length b - lead_zeros b))"
proof -
  have lz: "lead_zeros b \<le> length b"
    by (simp add: lead_zeros_def length_takeWhile_le)
  have z: "\<And>j. j < lead_zeros b \<Longrightarrow> b ! j = 0"
    unfolding lead_zeros_def
    using takeWhile_nth [of _ "\<lambda>b. b = 0" b] nth_mem [of _ "takeWhile (\<lambda>b. b = 0) b"]
      set_takeWhileD [of _ "\<lambda>b. b = 0" b]
    by metis
  from assms have "length b < 2 ^ 32" by simp
  from byte_value_loop [OF this, of "length b"]
  have loop: "for_loop (\<lambda>i value_length.
                   let num_bytes_ind = ind (value_length = 0);
                       byte_ind = ind (b ! i \<noteq> 0)
                   in do { d \<leftarrow> sub_chk (length b) i;
                           u32 (num_bytes_ind * byte_ind * d + (1 - num_bytes_ind) * value_length) })
               [0..<length b] 0 = Some (if length b \<le> lead_zeros b then 0 else length b - lead_zeros b)"
    by simp
  show ?thesis
  proof (cases "lead_zeros b = length b")
    case True
    then have "b = replicate (length b) 0"
      using z by (auto simp: list_eq_iff_nth_eq)
    then have "drop (length b) b @ replicate (length b) 0 = b" by simp
    then show ?thesis using True loop assms
      by (simp add: byte_value_def Let_def left_byte_shift_eq)
  next
    case False
    with lz have "lead_zeros b < length b" by simp
    then show ?thesis using loop assms
      by (simp add: byte_value_def Let_def left_byte_shift_eq)
  qed
qed

lemma lead_zeros_le: "lead_zeros b \<le> length b"
  by (simp add: lead_zeros_def length_takeWhile_le)

lemma lead_zeros_unique:
  assumes "k \<le> length xs" and "\<And>j. j < k \<Longrightarrow> xs ! j = 0" and "k < length xs \<Longrightarrow> xs ! k \<noteq> 0"
  shows "lead_zeros xs = k"
proof -
  have "takeWhile (\<lambda>b. b = 0) xs = take k xs"
    by (rule takeWhile_eq_take_P_nth) (use assms in auto)
  then show ?thesis using assms(1) by (simp add: lead_zeros_def)
qed

lemma lead_zeros_zero: "j < lead_zeros b \<Longrightarrow> b ! j = 0"
  unfolding lead_zeros_def
  using takeWhile_nth [of j "\<lambda>b. b = 0" b] nth_mem [of j "takeWhile (\<lambda>b. b = 0) b"]
    set_takeWhileD [of _ "\<lambda>b. b = 0" b]
  by metis

lemma lead_zeros_nonzero: "lead_zeros b < length b \<Longrightarrow> b ! lead_zeros b \<noteq> 0"
  unfolding lead_zeros_def by (rule nth_length_takeWhile)

lemma lead_zeros_take:
  assumes "n \<le> length b" and "take n b \<noteq> replicate n 0"
  shows "lead_zeros b < n \<and> lead_zeros (take n b) = lead_zeros b"
proof -
  from assms obtain j where j: "j < n" "b ! j \<noteq> 0"
    by (auto simp: list_eq_iff_nth_eq)
  have lt: "lead_zeros b < n"
  proof (rule ccontr)
    assume "\<not> lead_zeros b < n"
    with j(1) have "j < lead_zeros b" by simp
    from lead_zeros_zero [OF this] j(2) show False by simp
  qed
  have "lead_zeros (take n b) = lead_zeros b"
  proof (rule lead_zeros_unique)
    show "lead_zeros b \<le> length (take n b)" using lt assms(1) by simp
    show "\<And>j. j < lead_zeros b \<Longrightarrow> take n b ! j = 0"
      using lt lead_zeros_zero by simp
    show "lead_zeros b < length (take n b) \<Longrightarrow> take n b ! lead_zeros b \<noteq> 0"
      using lt assms(1) lead_zeros_nonzero [of b] by simp
  qed
  with lt show ?thesis by simp
qed

text \<open>
  Claim C8, as amended. For every byte array \<open>b\<close> of length \<open>N < 2 ^ 31\<close> and every
  \<open>n \<le> N\<close> such that \<open>b[0..n]\<close> is not all zeros and \<open>b[n..]\<close> is all zeros,
  \<open>byte_value(b)\<close> returns the pair \<open>(s, n')\<close> where \<open>s\<close> is \<open>b\<close> shifted left by its
  \<open>lead_zeros(b)\<close> leading zero bytes and filled with zeros at the end, and
  \<open>n' = N - lead_zeros(b)\<close>, so that \<open>n' \<ge> n - lead_zeros(b[0..n])\<close>. The first component
  is \<open>b\<close> itself when \<open>b[0]\<close> is not zero.
\<close>

theorem byte_value_left_justified:
  assumes "n \<le> length b" and "take n b \<noteq> replicate n 0"
    and "drop n b = replicate (length b - n) 0" and "length b < 2 ^ 31"
  shows "byte_value b =
           Some (drop (lead_zeros b) b @ replicate (lead_zeros b) 0, length b - lead_zeros b)
         \<and> n - lead_zeros (take n b) \<le> length b - lead_zeros b
         \<and> (b ! 0 \<noteq> 0 \<longrightarrow> drop (lead_zeros b) b @ replicate (lead_zeros b) 0 = b)"
proof -
  from lead_zeros_take [OF assms(1,2)]
  have lt: "lead_zeros b < n" and eq: "lead_zeros (take n b) = lead_zeros b" by simp_all
  from lt assms(1) have ne: "lead_zeros b \<noteq> length b" by simp
  have "b ! 0 \<noteq> 0 \<Longrightarrow> lead_zeros b = 0"
    by (rule lead_zeros_unique) simp_all
  then show ?thesis
    using byte_value_eq [OF assms(4)] ne eq assms(1) by auto
qed

lemma replicate_2: "replicate 2 x = [x, x]"
  by (simp add: numeral_2_eq_2)

lemma unat_u8_less: "unat (w :: u8) < 256"
  using unsigned_less [of w, where 'a = nat] by simp

theorem byte_value_left_justified_witness:
  "(2::nat) \<le> length [0, 5, 0 :: u8] \<and> take 2 [0, 5, 0 :: u8] \<noteq> replicate 2 0
   \<and> drop 2 [0, 5, 0 :: u8] = replicate (length [0, 5, 0 :: u8] - 2) 0
   \<and> byte_value [0, 5, 0] = Some ([5, 0, 0], 2)"
  using byte_value_left_justified [of 2 "[0, 5, 0]"]
  by (simp add: lead_zeros_def replicate_2)

theorem byte_value_not_identity_counterexample:
  "(2::nat) \<le> length [0, 5, 0 :: u8] \<and> take 2 [0, 5, 0 :: u8] \<noteq> replicate 2 0
   \<and> drop 2 [0, 5, 0 :: u8] = replicate (length [0, 5, 0 :: u8] - 2) 0
   \<and> byte_value [0, 5, 0] = Some ([5, 0, 0], 2) \<and> [5, 0, 0] \<noteq> [0, 5, 0 :: u8]"
  using byte_value_eq [of "[0, 5, 0]"]
  by (simp add: lead_zeros_def replicate_2)

section \<open>rlp.nr: headers\<close>

lemma strict_if_eq: "strict_if c x y = (if c then x else y) mod field_modulus"
  by (simp add: strict_if_def)

lemma small_mod_field: "x < 2 ^ 64 \<Longrightarrow> x mod field_modulus = x"
  by (simp add: field_modulus_def)

lemma loop_len_eq:
  assumes "1 \<le> N"
  shows "as_u64 (nat ((int (ind (MAX_LEN_IN_BYTES < N - 1)) * (int MAX_LEN_IN_BYTES - int (N - 1))
                       + int N - 1) mod int field_modulus)) = min 2 (N - 1)"
proof (cases "2 < N - 1")
  case True
  then have "int (ind (MAX_LEN_IN_BYTES < N - 1)) * (int MAX_LEN_IN_BYTES - int (N - 1)) + int N - 1 = 2"
    using assms by (simp add: MAX_LEN_IN_BYTES_def of_nat_diff)
  then show ?thesis using True
    by (simp add: as_u64_def field_modulus_def)
next
  case False
  then have "int (ind (MAX_LEN_IN_BYTES < N - 1)) * (int MAX_LEN_IN_BYTES - int (N - 1)) + int N - 1
             = int (N - 1)"
    using assms by (simp add: MAX_LEN_IN_BYTES_def of_nat_diff)
  moreover have "int (N - 1) mod int field_modulus = int (N - 1)"
    using False by (simp add: field_modulus_def)
  ultimately show ?thesis using False
    by (simp add: as_u64_def)
qed

lemma data_len_fail: "2 < lenlen \<Longrightarrow> data_len arr lenlen = None"
  by (simp add: data_len_def MAX_LEN_IN_BYTES_def)

lemma data_len_eq:
  assumes "arr \<noteq> []" and "lenlen \<le> 2"
  shows "data_len arr lenlen = Some (be_bytes (take lenlen (drop 1 arr)))"
proof -
  have N: "1 \<le> length arr" using assms(1) by (cases arr) simp_all
  have l: "lenlen = 0 \<or> lenlen = 1 \<or> lenlen = 2" using assms(2) by linarith
  have dl: "data_len arr lenlen =
      for_loop (\<lambda>i out.
                 let len_len_ind = ind (as_u32 i < as_u32 lenlen)
                 in do { b \<leftarrow> nth_chk arr (i + 1);
                         v \<leftarrow> u64 (256 * out + unat b);
                         Some (len_len_ind * v + (1 - len_len_ind) * out) })
             [0..<min 2 (length arr - 1)] 0"
    unfolding data_len_def Let_def
    by (simp only: sub_chk_eval [OF N] Option.bind_lunit loop_len_eq [OF N])
       (simp add: MAX_LEN_IN_BYTES_def assms(2))
  consider (one) a where "arr = [a]" | (two) a b where "arr = [a, b]"
    | (more) a b c r where "arr = a # b # c # r"
    using assms(1) by (metis list.exhaust)
  then show ?thesis
  proof cases
    case one
    then show ?thesis unfolding dl by (simp add: be_bytes_def)
  next
    case two
    have "unat b < 2 ^ 64" using unat_u8_less [of b] by simp
    then show ?thesis unfolding dl using l two
      by (auto simp: be_bytes_def as_u32_def)
  next
    case more
    have "unat b < 256" "unat c < 256" by (rule unat_u8_less)+
    then have "unat b < 2 ^ 64" "256 * unat b + unat c < 2 ^ 64" by simp_all
    then show ?thesis unfolding dl using l more
      by (auto simp: be_bytes_def as_u32_def upt_conv_Cons)
  qed
qed

lemma u8_less_iff: "((w :: u8) < numeral k) = (unat w < unat (numeral k :: u8))"
  by (simp only: word_less_nat_alt)

lemma u8_le_iff: "((numeral k :: u8) \<le> w) = (unat (numeral k :: u8) \<le> unat w)"
  by (simp only: word_le_nat_alt)

lemma unat_sub_b7: "183 \<le> unat (w :: u8) \<Longrightarrow> unat (w - 0xb7) = unat w - 183"
  by (simp add: unat_sub word_le_nat_alt)

lemma unat_sub_f7: "247 \<le> unat (w :: u8) \<Longrightarrow> unat (w - 0xf7) = unat w - 247"
  by (simp add: unat_sub word_le_nat_alt)

lemma unat_sub_80: "128 \<le> unat (w :: u8) \<Longrightarrow> unat (w - 0x80) = unat w - 128"
  by (simp add: unat_sub word_le_nat_alt)

lemma unat_sub_c0: "192 \<le> unat (w :: u8) \<Longrightarrow> unat (w - 0xc0) = unat w - 192"
  by (simp add: unat_sub word_le_nat_alt)

lemma unat_succ_u8: "unat (w :: u8) < 255 \<Longrightarrow> unat (1 + w) = unat w + 1"
  using unat_add_lem [of 1 w] by simp

lemma be_bytes_simps [simp]:
  "be_bytes [] = 0" "be_bytes [a] = unat a" "be_bytes [a, b] = 256 * unat a + unat b"
  by (simp_all add: be_bytes_def)

lemma be_bytes_bound: "length bs \<le> 2 \<Longrightarrow> be_bytes bs < 65536"
proof -
  assume "length bs \<le> 2"
  then consider "bs = []" | a where "bs = [a]" | a b where "bs = [a, b]"
    by (cases bs; cases "tl bs"; cases "tl (tl bs)") auto
  then show ?thesis
  proof cases
    case 1 then show ?thesis by simp
  next
    case 2 then show ?thesis using unat_u8_less [of a] by simp
  next
    case 3 then show ?thesis using unat_u8_less [of a] unat_u8_less [of b] by simp
  qed
qed

lemma strict_if_True: "x < 18446744073709551616 \<Longrightarrow> strict_if True x y = x"
  by (simp add: strict_if_def field_modulus_def)

lemma strict_if_False: "y < 18446744073709551616 \<Longrightarrow> strict_if False x y = y"
  by (simp add: strict_if_def field_modulus_def)

lemma unat_u8_lt64: "unat (w :: u8) < 18446744073709551616"
  using unat_u8_less [of w] by simp

lemma decode_len_short:
  assumes "nth_chk arr 0 = Some w" and "unat w < 255" and "data_len arr 0 = Some 0"
    and "(w < 0x80) = c1" and "(w < 0xb8) = c2" and "(w < 0xc0) = c3" and "(w < 0xf8) = c4"
    and "c2 \<or> \<not> c3" and "c4"
  shows "decode_len arr =
     Some \<lparr>offset_h = (if c1 then 0 else 1),
           length_h = (if c1 then 1 else if c2 then unat (w - 0x80) else unat (w - 0xc0)),
           data_type_h = ind (0xc0 \<le> w)\<rparr>"
proof -
  have s: "unat (1 :: u8) + unat w < 2 ^ 8" using assms(2) by simp
  have ll: "ind c3 * (1 - ind c2) * unat (w - 0xb7) + (1 - ind c4) * unat (w - 0xf7) = 0"
    using assms(8,9) by (auto simp: ind_def)
  have off: "as_u64 (strict_if c1 0 (strict_if c2 1 (strict_if c3 (unat (1 + w - 0xb7))
               (strict_if c4 1 (unat (1 + w - 0xf7)))))) = (if c1 then 0 else 1)"
    using assms(8,9)
    by (cases c1; cases c2; cases c3)
       (simp_all add: strict_if_True strict_if_False as_u64_id)
  have len: "as_u64 (strict_if True (strict_if c1 1 (strict_if c2 (unat (w - 0x80))
               (unat (w - 0xc0)))) 0)
             = (if c1 then 1 else if c2 then unat (w - 0x80) else unat (w - 0xc0))"
    by (cases c1; cases c2)
       (simp_all add: strict_if_True strict_if_False as_u64_id unat_u8_lt64)
  show ?thesis
    unfolding decode_len_def assms(1) Option.bind_lunit Let_def assms(4-7) ll
    by (simp only: s if_True Option.bind_lunit assms(3) off len simp_thms)
qed

lemma decode_len_long:
  assumes "nth_chk arr 0 = Some w" and "unat w < 255"
    and "data_len arr lenlen = Some dl" and "dl < 2 ^ 64" and "0 < lenlen"
    and "(w < 0x80) = False" and "(w < 0xb8) = False" and "(w < 0xc0) = c3" and "(w < 0xf8) = c4"
    and "ind c3 * unat (w - 0xb7) + (1 - ind c4) * unat (w - 0xf7) = lenlen"
    and "c3 \<or> \<not> c4"
  shows "decode_len arr =
     Some \<lparr>offset_h = (if c3 then unat (1 + w - 0xb7) else unat (1 + w - 0xf7)),
           length_h = dl, data_type_h = ind (0xc0 \<le> w)\<rparr>"
proof -
  have s: "unat (1 :: u8) + unat w < 2 ^ 8" using assms(2) by simp
  have ll: "ind c3 * (1 - ind False) * unat (w - 0xb7) + (1 - ind c4) * unat (w - 0xf7) = lenlen"
    using assms(10) by simp
  have off: "as_u64 (strict_if False 0 (strict_if False 1 (strict_if c3 (unat (1 + w - 0xb7))
               (strict_if c4 1 (unat (1 + w - 0xf7)))))) =
             (if c3 then unat (1 + w - 0xb7) else unat (1 + w - 0xf7))"
    using assms(11)
    by (cases c3; cases c4)
       (simp_all add: strict_if_True strict_if_False as_u64_id unat_u8_lt64)
  have len: "as_u64 (strict_if (lenlen = 0) (strict_if False 1 (strict_if False (unat (w - 0x80))
               (unat (w - 0xc0)))) dl) = dl"
    using assms(4,5) by (simp add: strict_if_False as_u64_id)
  show ?thesis
    unfolding decode_len_def assms(1) Option.bind_lunit Let_def assms(6-9) ll
    by (simp only: s if_True Option.bind_lunit assms(3) off len simp_thms)
qed

lemma decode_len_fail:
  assumes "nth_chk arr 0 = Some w"
    and "(w < 0xb8) = False" and "(w < 0xc0) = c3" and "(w < 0xf8) = c4"
    and "2 < ind c3 * unat (w - 0xb7) + (1 - ind c4) * unat (w - 0xf7)"
  shows "decode_len arr = None"
proof -
  have ll: "data_len arr (ind c3 * (1 - ind False) * unat (w - 0xb7) + (1 - ind c4) * unat (w - 0xf7))
            = None"
    using assms(5) by (simp add: data_len_fail)
  show ?thesis
    unfolding decode_len_def assms(1) Option.bind_lunit Let_def assms(2-4) ll
    by (simp split: if_splits)
qed

lemma decode_len_eq:
  assumes "arr \<noteq> []"
  shows "decode_len arr =
    (let p = unat (arr ! 0) in
     if p < 0x80 then Some \<lparr>offset_h = 0, length_h = 1, data_type_h = STRING\<rparr>
     else if p < 0xb8 then Some \<lparr>offset_h = 1, length_h = p - 0x80, data_type_h = STRING\<rparr>
     else if p < 0xc0 then
       (if p - 0xb7 \<le> 2
        then Some \<lparr>offset_h = 1 + (p - 0xb7),
                    length_h = be_bytes (take (p - 0xb7) (drop 1 arr)), data_type_h = STRING\<rparr>
        else None)
     else if p < 0xf8 then Some \<lparr>offset_h = 1, length_h = p - 0xc0, data_type_h = LIST\<rparr>
     else
       (if p - 0xf7 \<le> 2
        then Some \<lparr>offset_h = 1 + (p - 0xf7),
                    length_h = be_bytes (take (p - 0xf7) (drop 1 arr)), data_type_h = LIST\<rparr>
        else None))"
proof -
  define w where "w = arr ! 0"
  define p where "p = unat w"
  have nth: "nth_chk arr 0 = Some w" using assms by (simp add: w_def)
  have cmp: "(w < 0x80) = (p < 128)" "(w < 0xb8) = (p < 184)" "(w < 0xc0) = (p < 192)"
    "(w < 0xf8) = (p < 248)" "(0xc0 \<le> w) = (192 \<le> p)"
    by (simp_all add: p_def word_less_nat_alt word_le_nat_alt)
  have bb': "\<And>k. k \<le> 2 \<Longrightarrow> be_bytes (take k (drop 1 arr)) < 2 ^ 64"
  proof -
    fix k :: nat assume "k \<le> 2"
    then have "be_bytes (take k (drop 1 arr)) < 65536" by (intro be_bytes_bound) simp
    then show "be_bytes (take k (drop 1 arr)) < 2 ^ 64" by simp
  qed
  have dl0: "data_len arr 0 = Some 0" using data_len_eq [OF assms, of 0] by simp
  consider (a) "p < 128" | (b) "128 \<le> p" "p < 184" | (c) "184 \<le> p" "p < 192"
    | (d) "192 \<le> p" "p < 248" | (e) "248 \<le> p"
    by linarith
  then have "decode_len arr =
     (if p < 0x80 then Some \<lparr>offset_h = 0, length_h = 1, data_type_h = STRING\<rparr>
     else if p < 0xb8 then Some \<lparr>offset_h = 1, length_h = p - 0x80, data_type_h = STRING\<rparr>
     else if p < 0xc0 then
       (if p - 0xb7 \<le> 2
        then Some \<lparr>offset_h = 1 + (p - 0xb7),
                    length_h = be_bytes (take (p - 0xb7) (drop 1 arr)), data_type_h = STRING\<rparr>
        else None)
     else if p < 0xf8 then Some \<lparr>offset_h = 1, length_h = p - 0xc0, data_type_h = LIST\<rparr>
     else
       (if p - 0xf7 \<le> 2
        then Some \<lparr>offset_h = 1 + (p - 0xf7),
                    length_h = be_bytes (take (p - 0xf7) (drop 1 arr)), data_type_h = LIST\<rparr>
        else None))"
  proof cases
    case a
    have "decode_len arr =
       Some \<lparr>offset_h = (if p < 128 then 0 else 1),
             length_h = (if p < 128 then 1 else if p < 184 then unat (w - 0x80) else unat (w - 0xc0)),
             data_type_h = ind (0xc0 \<le> w)\<rparr>"
      by (rule decode_len_short [OF nth _ dl0 cmp(1-4)]) (use a in \<open>simp_all add: p_def\<close>)
    then show ?thesis using a by (simp add: cmp STRING_def)
  next
    case b
    have "decode_len arr =
       Some \<lparr>offset_h = (if p < 128 then 0 else 1),
             length_h = (if p < 128 then 1 else if p < 184 then unat (w - 0x80) else unat (w - 0xc0)),
             data_type_h = ind (0xc0 \<le> w)\<rparr>"
      by (rule decode_len_short [OF nth _ dl0 cmp(1-4)]) (use b in \<open>simp_all add: p_def\<close>)
    moreover have "unat (w - 0x80) = p - 128" using b unat_sub_80 [of w] by (simp add: p_def)
    ultimately show ?thesis using b by (simp add: cmp STRING_def)
  next
    case d
    have "decode_len arr =
       Some \<lparr>offset_h = (if p < 128 then 0 else 1),
             length_h = (if p < 128 then 1 else if p < 184 then unat (w - 0x80) else unat (w - 0xc0)),
             data_type_h = ind (0xc0 \<le> w)\<rparr>"
      by (rule decode_len_short [OF nth _ dl0 cmp(1-4)]) (use d in \<open>simp_all add: p_def\<close>)
    moreover have "unat (w - 0xc0) = p - 192" using d unat_sub_c0 [of w] by (simp add: p_def)
    ultimately show ?thesis using d by (simp add: cmp LIST_def)
  next
    case c
    have l: "unat (w - 0xb7) = p - 183" using c unat_sub_b7 [of w] by (simp add: p_def)
    have "unat (1 + w) = p + 1" using c unat_succ_u8 [of w] by (simp add: p_def)
    then have o: "unat (1 + w - 0xb7) = p - 182" using c unat_sub_b7 [of "1 + w"] by simp
    show ?thesis
    proof (cases "p - 183 \<le> 2")
      case True
      have "decode_len arr =
         Some \<lparr>offset_h = (if p < 192 then unat (1 + w - 0xb7) else unat (1 + w - 0xf7)),
               length_h = be_bytes (take (p - 183) (drop 1 arr)), data_type_h = ind (0xc0 \<le> w)\<rparr>"
      proof (rule decode_len_long [OF nth _ data_len_eq [OF assms True] bb' [OF True] _ _ _ cmp(3,4)])
        show "unat w < 255" using c by (simp add: p_def)
        show "0 < p - 183" using c by simp
        show "ind (p < 192) * unat (w - 0xb7) + (1 - ind (p < 248)) * unat (w - 0xf7) = p - 183"
          using c by (simp add: l)
      qed (use c in \<open>simp_all add: cmp\<close>)
      then show ?thesis using c True o by (simp add: cmp STRING_def)
    next
      case False
      have "decode_len arr = None"
      proof (rule decode_len_fail [OF nth _ cmp(3,4)])
        show "2 < ind (p < 192) * unat (w - 0xb7) + (1 - ind (p < 248)) * unat (w - 0xf7)"
          using c False by (simp add: l)
      qed (use c in \<open>simp_all add: cmp\<close>)
      then show ?thesis using c False by simp
    qed
  next
    case e
    have l: "unat (w - 0xf7) = p - 247" using e unat_sub_f7 [of w] by (simp add: p_def)
    show ?thesis
    proof (cases "p - 247 \<le> 2")
      case True
      have "unat (1 + w) = p + 1" using e True unat_succ_u8 [of w] by (simp add: p_def)
      then have o: "unat (1 + w - 0xf7) = p - 246" using e unat_sub_f7 [of "1 + w"] by simp
      have "decode_len arr =
         Some \<lparr>offset_h = (if p < 192 then unat (1 + w - 0xb7) else unat (1 + w - 0xf7)),
               length_h = be_bytes (take (p - 247) (drop 1 arr)), data_type_h = ind (0xc0 \<le> w)\<rparr>"
      proof (rule decode_len_long [OF nth _ data_len_eq [OF assms True] bb' [OF True] _ _ _ cmp(3,4)])
        show "unat w < 255" using e True by (simp add: p_def)
        show "0 < p - 247" using e by simp
        show "ind (p < 192) * unat (w - 0xb7) + (1 - ind (p < 248)) * unat (w - 0xf7) = p - 247"
          using e by (simp add: l)
      qed (use e in \<open>simp_all add: cmp\<close>)
      then show ?thesis using e True o by (simp add: cmp LIST_def)
    next
      case False
      have "decode_len arr = None"
      proof (rule decode_len_fail [OF nth _ cmp(3,4)])
        show "2 < ind (p < 192) * unat (w - 0xb7) + (1 - ind (p < 248)) * unat (w - 0xf7)"
          using e False by (simp add: l)
      qed (use e in \<open>simp_all add: cmp\<close>)
      then show ?thesis using e False by simp
    qed
  qed
  then show ?thesis by (simp add: Let_def p_def w_def)
qed

text \<open>
  Claim C2. For every non-empty input whose first byte is \<open>p\<close>, \<open>decode_len\<close> returns
  \<open>(offset, length, data_type)\<close> by the five ranges: \<open>p < 0x80\<close> gives offset 0, length 1;
  \<open>0x80 \<le> p < 0xb8\<close> gives offset 1, length \<open>p - 0x80\<close>; \<open>0xb8 \<le> p < 0xc0\<close> gives offset
  \<open>1 + (p - 0xb7)\<close> and as length the big-endian value of the next \<open>p - 0xb7\<close> bytes;
  \<open>0xc0 \<le> p < 0xf8\<close> gives offset 1, length \<open>p - 0xc0\<close>; \<open>p \<ge> 0xf8\<close> gives offset
  \<open>1 + (p - 0xf7)\<close> and as length the big-endian value of the next \<open>p - 0xf7\<close> bytes. The data
  type is \<open>LIST\<close> exactly from \<open>0xc0\<close> on, and the decode fails whenever the length of the
  length exceeds 2 bytes. (When the array is long enough to hold the header,
  \<open>take k (drop 1 arr)\<close> is the \<open>k\<close> bytes after the prefix.)
\<close>

theorem decode_len_five_ranges:
  assumes "arr \<noteq> []"
  shows "decode_len arr =
    (let p = unat (arr ! 0) in
     if p < 0x80 then Some \<lparr>offset_h = 0, length_h = 1, data_type_h = STRING\<rparr>
     else if p < 0xb8 then Some \<lparr>offset_h = 1, length_h = p - 0x80, data_type_h = STRING\<rparr>
     else if p < 0xc0 then
       (if p - 0xb7 \<le> 2
        then Some \<lparr>offset_h = 1 + (p - 0xb7),
                    length_h = be_bytes (take (p - 0xb7) (drop 1 arr)), data_type_h = STRING\<rparr>
        else None)
     else if p < 0xf8 then Some \<lparr>offset_h = 1, length_h = p - 0xc0, data_type_h = LIST\<rparr>
     else
       (if p - 0xf7 \<le> 2
        then Some \<lparr>offset_h = 1 + (p - 0xf7),
                    length_h = be_bytes (take (p - 0xf7) (drop 1 arr)), data_type_h = LIST\<rparr>
        else None))"
  using assms by (rule decode_len_eq)

theorem decode_len_five_ranges_witness:
  "[0xb9, 0x04, 0x00 :: u8] \<noteq> [] \<and>
   decode_len [0xb9, 0x04, 0x00] = Some \<lparr>offset_h = 3, length_h = 1024, data_type_h = STRING\<rparr>"
  using decode_len_five_ranges [of "[0xb9, 0x04, 0x00]"]
  by (simp add: Let_def)

text \<open>The header tests of \<open>rlp.nr\<close> (\<open>rlp_length_check\<close>, \<open>data_len_test_unpadded\<close>).\<close>

lemma rlp_length_check_list:
  "decode_len [0xc7, 0xc0, 0xc1] = Some \<lparr>offset_h = 1, length_h = 7, data_type_h = LIST\<rparr>"
  using decode_len_eq [of "[0xc7, 0xc0, 0xc1]"] by (simp add: Let_def)

lemma rlp_length_check_string:
  "decode_len [0x82, 0x04, 0x00] = Some \<lparr>offset_h = 1, length_h = 2, data_type_h = STRING\<rparr>"
  using decode_len_eq [of "[0x82, 0x04, 0x00]"] by (simp add: Let_def)

lemma data_len_test_unpadded: "data_len [249, 1, 109] 2 = Some 0x016d"
  using data_len_eq [of "[249, 1, 109]" 2] by simp

lemma decode_len_length_of_length_too_long:
  "decode_len [0xba, 0x01, 0x02, 0x03] = None" "decode_len [0xff, 0x01, 0x02, 0x03] = None"
  using decode_len_eq [of "[0xba, 0x01, 0x02, 0x03]"] decode_len_eq [of "[0xff, 0x01, 0x02, 0x03]"]
  by (simp_all add: Let_def)

section \<open>Depth zero\<close>

lemma for_loop_first_fails:
  assumes "\<And>s. body i s = None"
  shows "for_loop body (i # is) s = None"
  by (simp add: assms)

lemma verify_internal_node_depth_0:
  "verify_internal_node keccak256 refs key_nibbles path 0 cur_depth = None"
  by (cases refs) (simp add: verify_internal_node_def)

lemma internal_loop_depth_0:
  "for_loop (\<lambda>i refs. verify_internal_node keccak256 refs key_nibbles path 0 i) [0..<n] s
     = (if n = 0 then Some s else None)"
  by (cases n) (simp_all add: upt_conv_Cons verify_internal_node_depth_0 del: upt_Suc)

lemma verify_storage_leaf_node_depth_0:
  assumes "depth_tp self = 0"
  shows "verify_storage_leaf_node keccak256 self hash key_len key_ptr key_nibbles = None"
  by (cases "byte_value (value_tp self)") (auto simp: verify_storage_leaf_node_def assms)

lemma verify_state_leaf_node_depth_0:
  assumes "depth_tp self = 0"
  shows "verify_state_leaf_node M keccak256 self hash key_len key_ptr key_nibbles = None"
  by (cases "byte_value (value_tp self)") (auto simp: verify_state_leaf_node_def assms Let_def)

lemma bind_None_right: "Option.bind m (\<lambda>x. None) = None"
  by (cases m) simp_all

text \<open>
  Claim C10. For every proof value with \<open>depth = 0\<close>, \<open>verify_storage_root\<close> and
  \<open>verify_state_root\<close> fail, whatever the key, the proof bytes, the value, the root and the
  hash function are: the checked subtraction \<open>depth - 1\<close> underflows in the first call of
  \<open>verify_internal_node\<close>, or, when the loop has no iteration, in the leaf verifier,
  before any hash comparison.
\<close>

theorem depth_zero_never_verifies:
  assumes "depth_tp self = 0"
  shows "verify_storage_root keccak256 self root = None
       \<and> verify_state_root M keccak256 self root = None"
proof -
  have "verify_storage_root keccak256 self root = None"
    unfolding verify_storage_root_def Let_def assms internal_loop_depth_0
    by (auto simp: Option.bind_eq_None_conv verify_storage_leaf_node_depth_0 [OF assms]
        split: if_splits)
  moreover have "verify_state_root M keccak256 self root = None"
    unfolding verify_state_root_def Let_def assms internal_loop_depth_0
    by (auto simp: Option.bind_eq_None_conv verify_state_leaf_node_depth_0 [OF assms]
        split: if_splits)
  ultimately show ?thesis by simp
qed

theorem depth_zero_never_verifies_witness:
  "depth_tp \<lparr>key_tp = replicate 32 0, proof_tp = replicate 532 0, depth_tp = 0,
             value_tp = replicate 32 0\<rparr> = 0
   \<and> verify_storage_root (\<lambda>input message_size. replicate 32 0)
        \<lparr>key_tp = replicate 32 0, proof_tp = replicate 532 0, depth_tp = 0,
         value_tp = replicate 32 0\<rparr> (replicate 32 0) = None
   \<and> verify_state_root 134 (\<lambda>input message_size. replicate 32 0)
        \<lparr>key_tp = replicate 32 0, proof_tp = replicate 532 0, depth_tp = 0,
         value_tp = replicate 32 0\<rparr> (replicate 32 0) = None"
  using depth_zero_never_verifies [of "\<lparr>key_tp = replicate 32 0, proof_tp = replicate 532 0,
      depth_tp = 0, value_tp = replicate 32 0\<rparr>" "\<lambda>input message_size. replicate 32 0"
      "replicate 32 0" 134]
  by simp

section \<open>Field check of the branch slots\<close>

lemma field_modulus_large: "2 ^ 128 < int field_modulus"
  by (simp add: field_modulus_def)

lemma slot_length_check:
  assumes "l < 2 ^ 64"
  shows "((int l * (int l - int KEY_LENGTH)) mod int field_modulus = 0) = (l = 0 \<or> l = 32)"
proof
  assume "l = 0 \<or> l = 32"
  then show "(int l * (int l - int KEY_LENGTH)) mod int field_modulus = 0"
    by (auto simp: KEY_LENGTH_def)
next
  assume z: "(int l * (int l - int KEY_LENGTH)) mod int field_modulus = 0"
  show "l = 0 \<or> l = 32"
  proof (rule ccontr)
    assume n: "\<not> (l = 0 \<or> l = 32)"
    let ?x = "int l * (int l - 32)"
    from n have nz: "?x \<noteq> 0" by simp
    from z have "int field_modulus dvd ?x" by (simp add: KEY_LENGTH_def mod_eq_0_iff_dvd)
    with nz have "\<bar>int field_modulus\<bar> \<le> \<bar>?x\<bar>" by (rule dvd_imp_le_int)
    moreover have "\<bar>?x\<bar> < 2 ^ 64 * 2 ^ 64"
    proof -
      have a: "\<bar>int l\<bar> < 2 ^ 64" using assms by simp
      have b: "\<bar>int l - 32\<bar> < 2 ^ 64" using assms by simp
      have "\<bar>int l\<bar> * \<bar>int l - 32\<bar> < 2 ^ 64 * 2 ^ 64"
        by (rule mult_strict_mono [OF a b]) simp_all
      then show ?thesis by (simp add: abs_mult)
    qed
    ultimately have "int field_modulus < 2 ^ 64 * 2 ^ 64" by simp
    with field_modulus_large show False by simp
  qed
qed

lemma assert_loop_Some:
  "(for_loop (\<lambda>i _. f i) is u = Some v) = (\<forall>i\<in>set is. f i = Some ())"
  by (induction "is" arbitrary: u) (auto split: option.splits)

lemma option_unit_eq: "((x :: unit option) = Some ()) = P \<Longrightarrow> x = (if P then Some () else None)"
  by (cases x) auto

lemma copy_loop_Some:
  assumes "0 < n"
  shows "(write_loop (\<lambda>j. do { k \<leftarrow> u64 (off + j); nth_chk src k }) (replicate n z) [0..<n] = Some d)
         = (off + n \<le> length src \<and> off + n \<le> 2 ^ 64 \<and> d = take n (drop off src))"
proof
  assume "write_loop (\<lambda>j. do { k \<leftarrow> u64 (off + j); nth_chk src k }) (replicate n z) [0..<n] = Some d"
  then have l: "length d = n"
    and a: "\<And>i. i < n \<Longrightarrow> off + i < 2 ^ 64 \<and> off + i < length src \<and> d ! i = src ! (off + i)"
    by (auto simp: write_loop_Some Option.bind_eq_Some_conv)
  from assms have "n - 1 < n" by simp
  from a [OF this] have "off + (n - 1) < 2 ^ 64" "off + (n - 1) < length src" by simp_all
  with assms have b: "off + n \<le> length src" "off + n \<le> 2 ^ 64" by linarith+
  with l a have "d = take n (drop off src)"
    by (auto simp: list_eq_iff_nth_eq)
  with b show "off + n \<le> length src \<and> off + n \<le> 2 ^ 64 \<and> d = take n (drop off src)" by simp
next
  assume r: "off + n \<le> length src \<and> off + n \<le> 2 ^ 64 \<and> d = take n (drop off src)"
  then have "\<And>i. i < n \<Longrightarrow> off + i < 2 ^ 64 \<and> off + i < length src" by (simp add: less_le_trans)
  with r show "write_loop (\<lambda>j. do { k \<leftarrow> u64 (off + j); nth_chk src k }) (replicate n z) [0..<n] = Some d"
    by (auto simp: write_loop_Some)
qed

lemma resolve17_iff:
  assumes "length key = NIBBLE_LENGTH" and "\<forall>i<16. length_l t ! i < 2 ^ 64"
  shows "(resolve17 node t key kp = Some r) =
     (num_fields t = 17 \<and> 16 < length (length_l t)
      \<and> (\<forall>i<16. length_l t ! i = 0 \<or> length_l t ! i = 32) \<and> length_l t ! 16 = 0
      \<and> kp < 64 \<and> unat (key ! kp) < length (length_l t) \<and> length_l t ! unat (key ! kp) = 32
      \<and> unat (key ! kp) < length (offset_l t)
      \<and> offset_l t ! unat (key ! kp) + 32 \<le> length node
      \<and> offset_l t ! unat (key ! kp) + 32 \<le> 2 ^ 64
      \<and> r = (take 32 (drop (offset_l t ! unat (key ! kp)) node), 32, kp + 1))"
proof -
  have chk: "\<And>i. i < 16 \<Longrightarrow>
      ((int (length_l t ! i) * (int (length_l t ! i) - int KEY_LENGTH)) mod int field_modulus = 0)
      = (length_l t ! i = 0 \<or> length_l t ! i = 32)"
    using assms(2) by (simp add: slot_length_check)
  have loop: "16 < length (length_l t) \<Longrightarrow>
      (for_loop (\<lambda>i _. do { l \<leftarrow> nth_chk (length_l t) i;
            noir_assert ((int l * (int l - int KEY_LENGTH)) mod int field_modulus = 0) }) [0..<16] () = Some ())
      = (\<forall>i<16. length_l t ! i = 0 \<or> length_l t ! i = 32)"
    by (simp only: assert_loop_Some) (auto simp: chk)
  show ?thesis
  proof (cases "16 < length (length_l t)")
    case True
    show ?thesis
      unfolding resolve17_def option_unit_eq [OF loop [OF True]]
      using assms(1) True
      by (auto simp: Option.bind_eq_Some_conv copy_loop_Some KEY_LENGTH_def
          NIBBLE_LENGTH_def as_u32_def split: if_splits)
  next
    case False
    then show ?thesis
      unfolding resolve17_def
      by (auto simp: Option.bind_eq_Some_conv)
  qed
qed


text \<open>
  Claim C5. \<open>resolve17\<close> succeeds on a node table (whose lengths are \<open>u64\<close> values, with a key
  of 64 nibbles) only if the table has exactly 17 fields, every one of the first 16 fields
  has length 0 or exactly 32, the 17th field is empty, the cursor is below 64, and the slot
  indexed by the key nibble at the cursor has length exactly 32; on success it returns the
  32 bytes of the node at that slot's recorded offset as the next child hash, the length 32,
  and the cursor advanced by exactly 1.
\<close>

theorem resolve17_branch:
  assumes "resolve17 node t key kp = Some (resolved_key, resolved_key_length, kp')"
    and "length key = NIBBLE_LENGTH" and "\<forall>i<16. length_l t ! i < 2 ^ 64"
  shows "num_fields t = 17
       \<and> (\<forall>i<16. length_l t ! i = 0 \<or> length_l t ! i = 32)
       \<and> length_l t ! 16 = 0
       \<and> kp < 64
       \<and> length_l t ! unat (key ! kp) = 32
       \<and> offset_l t ! unat (key ! kp) + 32 \<le> length node
       \<and> resolved_key = take 32 (drop (offset_l t ! unat (key ! kp)) node)
       \<and> resolved_key_length = 32
       \<and> kp' = kp + 1"
  using assms(1) unfolding resolve17_iff [OF assms(2,3)] by simp

lemma branch_table_lengths: "i < 16 \<Longrightarrow> length_l branch_table ! i = 0 \<or> length_l branch_table ! i = 32"
  by (cases i) (simp_all add: branch_table_def)

lemma resolve17_branch_node:
  "resolve17 branch_node branch_table zero_nibbles 0 = Some (replicate 32 0xab, 32, 1)"
proof -
  have k: "length zero_nibbles = NIBBLE_LENGTH" by (simp add: zero_nibbles_def NIBBLE_LENGTH_def)
  have u: "\<forall>i<16. length_l branch_table ! i < 2 ^ 64"
    using branch_table_lengths by fastforce
  have z: "zero_nibbles ! 0 = 0" by (simp add: zero_nibbles_def)
  show ?thesis
    unfolding resolve17_iff [OF k u] z
    using branch_table_lengths
    by (simp add: branch_table_def branch_node_def)
qed

theorem resolve17_branch_witness:
  "resolve17 branch_node branch_table zero_nibbles 0 = Some (replicate 32 0xab, 32, 1)
   \<and> length zero_nibbles = NIBBLE_LENGTH
   \<and> num_fields branch_table = 17 \<and> length_l branch_table ! 16 = 0
   \<and> length_l branch_table ! unat (zero_nibbles ! 0) = 32
   \<and> replicate 32 0xab = take 32 (drop (offset_l branch_table ! unat (zero_nibbles ! 0)) branch_node)"
proof -
  have k: "length zero_nibbles = NIBBLE_LENGTH" by (simp add: zero_nibbles_def NIBBLE_LENGTH_def)
  have u: "\<forall>i<16. length_l branch_table ! i < 2 ^ 64"
    using branch_table_lengths by fastforce
  from resolve17_branch [OF resolve17_branch_node k u] k resolve17_branch_node
  show ?thesis by simp
qed

lemma byte_to_nibbles_eq: "byte_to_nibbles b = (drop_bit 4 b, b AND 15)"
proof -
  have "16 * (b div 16) + b mod 16 = b" by (rule mult_div_mod_eq)
  then have "b - 16 * (b div 16) = b mod 16" by (simp add: algebra_simps)
  moreover have "b mod 16 = b AND 15"
    using take_bit_eq_mask [of 4 b] by (simp add: take_bit_eq_mod mask_eq_exp_minus_1)
  moreover have "drop_bit 4 b = b div 16" by (simp add: drop_bit_eq_div)
  ultimately show ?thesis by (simp add: byte_to_nibbles_def Let_def)
qed

lemma hi_nibble_less: "unat (drop_bit 4 (b :: u8)) < 16"
proof -
  have "unat (drop_bit 4 b) = unat b div 16" by (simp add: drop_bit_eq_div unat_div)
  then show ?thesis using unat_u8_less [of b] by simp
qed

lemma lo_nibble_less: "unat ((b :: u8) AND 15) < 16"
proof -
  have "unat (b AND 15) \<le> unat (15 :: u8)"
    by (rule word_and_le1 [THEN word_le_nat_alt [THEN iffD1]])
  then show ?thesis by simp
qed

lemma take_dot_drop_Some:
  "(take_dot_drop M arr n = Some d) =
   (arr \<noteq> [] \<and> length d = M \<and>
    (\<forall>i<M. i + n < 2 ^ 64 \<and> d ! i = (if i + n < length arr then arr ! (i + n) else arr ! 0)))"
proof (cases "arr = []")
  case True
  then show ?thesis by (simp add: take_dot_drop_def)
next
  case False
  then have n0: "nth_chk arr 0 = Some (arr ! 0)" by simp
  have "\<And>i x. (do { s \<leftarrow> u64 (i + n); let j = ind (s < length arr) * s; nth_chk arr j } = Some x)
       = (i + n < 2 ^ 64 \<and> x = (if i + n < length arr then arr ! (i + n) else arr ! 0))"
    using False by (auto simp: Option.bind_eq_Some_conv Let_def)
  then show ?thesis
    using False unfolding take_dot_drop_def n0 Option.bind_lunit
    by (simp add: write_loop_Some)
qed

lemma take_dot_drop_window:
  assumes "n + M \<le> length arr" and "length arr \<le> 2 ^ 64" and "0 < M"
  shows "take_dot_drop M arr n = Some (take M (drop n arr))"
  using assms by (auto simp: take_dot_drop_Some add.commute)

section \<open>Hex-prefix decoding\<close>

lemma parity_cases:
  fixes t :: u8
  shows "t AND 1 = (if odd t then 1 else 0)"
  by (simp add: and_one_eq mod_2_eq_odd)

lemma compact_decode_loop:
  fixes parity :: u8
  assumes "m < length input" and "2 * m \<le> NIB" and p: "parity = (if od then 1 else 0)"
  shows "for_loop (compact_decode_body input parity) [0..<m]
           (replicate NIB 0, byte_to_nibbles (input ! 0))
         = Some (map (compact_nibble input od) [0..<2 * m] @ replicate (NIB - 2 * m) 0,
                 byte_to_nibbles (input ! m))"
  using assms(1,2)
proof (induction m)
  case 0
  then show ?case by simp
next
  case (Suc m)
  then have IH: "for_loop (compact_decode_body input parity) [0..<m]
           (replicate NIB 0, byte_to_nibbles (input ! 0))
         = Some (map (compact_nibble input od) [0..<2 * m] @ replicate (NIB - 2 * m) 0,
                 byte_to_nibbles (input ! m))"
    by simp
  let ?xs = "map (compact_nibble input od) [0..<2 * m]"
  have r: "replicate (NIB - 2 * m) (0 :: u8) = 0 # 0 # replicate (NIB - Suc (Suc (2 * m))) 0"
    using Suc.prems(2) by (cases "NIB - 2 * m"; cases "NIB - 2 * m - 1") auto
  have e: "even (2 * m)" "(2 * m) div 2 = m" "odd (Suc (2 * m))" "Suc (2 * m) div 2 = m" by simp_all
  have c0: "compact_nibble input od (2 * m) =
      parity * snd (byte_to_nibbles (input ! m)) + (1 - parity) * fst (byte_to_nibbles (input ! Suc m))"
    unfolding compact_nibble_def Let_def e by (simp add: p byte_to_nibbles_eq)
  have c1: "compact_nibble input od (Suc (2 * m)) =
      parity * fst (byte_to_nibbles (input ! Suc m)) + (1 - parity) * snd (byte_to_nibbles (input ! Suc m))"
    unfolding compact_nibble_def Let_def e by (simp add: p byte_to_nibbles_eq)
  have u: "(?xs @ 0 # 0 # replicate k 0)[2 * m := a, Suc (2 * m) := b]
           = ?xs @ a # b # replicate k 0" for a b :: u8 and k
    by (simp add: list_update_append)
  show ?case
    unfolding upt_Suc_append [OF le0] for_loop_snoc IH
    using Suc.prems
    by (simp add: compact_decode_body_def r u c0 c1 Let_def del: replicate_Suc)
qed

lemma compact_decode_eq:
  assumes E: "length input = 33"
  shows "compact_decode 64 input len =
     (let od = odd (drop_bit 4 (input ! 0)) in
      if drop_bit 4 (input ! 0) < 4 \<and> (od \<or> input ! 0 AND 15 = 0)
         \<and> 2 \<le> 2 * len + ind od \<and> 2 * len + ind od < 2 ^ 64
         \<and> as_u32 (2 * len + ind od - 2) \<le> 64
      then Some (map (compact_nibble input od) [0..<64], 2 * len + ind od - 2) else None)"
proof -
  define od where "od = odd (drop_bit 4 (input ! 0))"
  define parity where "parity = fst (byte_to_nibbles (input ! 0)) AND 1"
  have par: "parity = (if od then 1 else 0)"
    unfolding parity_def od_def by (simp add: byte_to_nibbles_eq parity_cases)
  have n0: "nth_chk input 0 = Some (input ! 0)" using E by simp
  have s1: "sub_chk (length input) 1 = Some 32" using E by simp
  have loop: "for_loop (compact_decode_body input parity) [0..<32]
           (replicate 64 0, byte_to_nibbles (input ! 0))
         = Some (map (compact_nibble input od) [0..<64], byte_to_nibbles (input ! 32))"
    using compact_decode_loop [of 32 input 64 parity od, OF _ _ par] E by simp
  have up: "unat parity = ind od" by (simp add: par)
  have chk: "((1 - parity) * snd (byte_to_nibbles (input ! 0)) = 0) = (od \<or> input ! 0 AND 15 = 0)"
    by (simp add: par byte_to_nibbles_eq)
  have "compact_decode 64 input len =
      (if drop_bit 4 (input ! 0) < 4 \<and> (od \<or> input ! 0 AND 15 = 0)
         \<and> 2 \<le> 2 * len + ind od \<and> 2 * len + ind od < 2 ^ 64
         \<and> as_u32 (2 * len + ind od - 2) \<le> 64
      then Some (map (compact_nibble input od) [0..<64], 2 * len + ind od - 2) else None)"
    unfolding compact_decode_def Let_def n0 Option.bind_lunit s1 parity_def [symmetric] loop chk up
    by (auto simp: E as_u32_def byte_to_nibbles_eq noir_assert_def u64_def sub_chk_def)
  then show ?thesis by (simp add: Let_def od_def)
qed

lemma nibbles_of_Cons: "nibbles_of (x # xs) = drop_bit 4 x # (x AND 15) # nibbles_of xs"
  by (simp add: nibbles_of_def)

lemma length_nibbles_of [simp]: "length (nibbles_of xs) = 2 * length xs"
  by (induction xs) (simp_all add: nibbles_of_Cons, simp add: nibbles_of_def)

lemma nibbles_of_nth:
  "k < 2 * length xs \<Longrightarrow>
   nibbles_of xs ! k = (if even k then drop_bit 4 (xs ! (k div 2)) else xs ! (k div 2) AND 15)"
proof (induction xs arbitrary: k)
  case Nil
  then show ?case by simp
next
  case (Cons x xs)
  show ?case
  proof (cases k)
    case 0
    then show ?thesis by (simp add: nibbles_of_Cons)
  next
    case (Suc j)
    show ?thesis
    proof (cases j)
      case 0
      with Suc show ?thesis by (simp add: nibbles_of_Cons)
    next
      case (Suc i)
      with \<open>k = Suc j\<close> Cons.prems have "i < 2 * length xs" by simp
      from Cons.IH [OF this] Suc \<open>k = Suc j\<close> show ?thesis
        by (simp add: nibbles_of_Cons)
    qed
  qed
qed

lemma compact_nibbles_hp_path:
  assumes "1 \<le> len" and "len \<le> length input"
  defines "od \<equiv> odd (drop_bit 4 (input ! 0))"
  shows "map (compact_nibble input od) [0..<2 * len + ind od - 2] = hp_path (take len input)"
proof -
  let ?f = "take len input"
  have f0: "hd ?f = input ! 0" using assms(1,2) by (cases input) (auto simp: take_Suc_conv_app_nth hd_conv_nth)
  have tl: "\<And>i. i < len - 1 \<Longrightarrow> tl ?f ! i = input ! (i + 1)"
    using assms(1,2) by (simp add: nth_tl)
  have m: "min (length input) len = len" using assms(2) by simp
  have ltl: "length (tl ?f) = len - 1" using assms(2) by simp
  have len: "length (hp_path ?f) = 2 * len + ind od - 2"
    using assms(1,2) by (auto simp: hp_path_def f0 od_def ind_def min_def)
  have "\<And>k. k < 2 * len + ind od - 2 \<Longrightarrow> compact_nibble input od k = hp_path ?f ! k"
  proof -
    fix k assume k: "k < 2 * len + ind od - 2"
    show "compact_nibble input od k = hp_path ?f ! k"
    proof (cases od)
      case False
      then have k': "k < 2 * length (tl ?f)" using k by (simp add: m)
      then have "k div 2 < len - 1" by (simp add: m)
      then show ?thesis using False k'
        by (simp add: hp_path_def f0 od_def [symmetric] nibbles_of_nth tl compact_nibble_def Let_def m)
    next
      case True
      show ?thesis
      proof (cases k)
        case 0
        then show ?thesis using True
          by (simp add: hp_path_def f0 od_def [symmetric] compact_nibble_def Let_def)
      next
        case (Suc j)
        then have j: "j < 2 * length (tl ?f)" using k True by (simp add: m)
        then have d: "j div 2 < len - 1" by (simp add: m)
        have e: "odd j \<Longrightarrow> Suc j div 2 = j div 2 + 1" "even j \<Longrightarrow> Suc j div 2 = j div 2"
          by presburger+
        show ?thesis using True Suc j d e
          by (cases "even j")
             (simp_all add: hp_path_def f0 od_def [symmetric] nibbles_of_nth tl compact_nibble_def Let_def m)
      qed
    qed
  qed
  with len show ?thesis by (auto simp: list_eq_iff_nth_eq)
qed


lemma key_check_loop:
  assumes "niblen \<le> 64" and "kp + niblen \<le> 64" and "length key = 64" and "length nib = 64"
  shows "(for_loop (\<lambda>i _. resolve2_key_check nib niblen key kp i) [0..<64] () = Some ())
         = (take niblen nib = take niblen (drop kp key))"
proof -
  have a: "\<And>i. i < 64 \<Longrightarrow>
      (resolve2_key_check nib niblen key kp i = Some ()) = (i < niblen \<longrightarrow> nib ! i = key ! (kp + i))"
    using assms by (auto simp: resolve2_key_check_def as_u32_def Option.bind_eq_Some_conv)
  have "(for_loop (\<lambda>i _. resolve2_key_check nib niblen key kp i) [0..<64] () = Some ())
        = (\<forall>i<64. resolve2_key_check nib niblen key kp i = Some ())"
    by (simp only: assert_loop_Some) auto
  also have "\<dots> = (\<forall>i<niblen. nib ! i = key ! (kp + i))"
    using a assms(1) by (metis less_le_trans)
  also have "\<dots> = (take niblen nib = take niblen (drop kp key))"
    using assms by (auto simp: list_eq_iff_nth_eq)
  finally show ?thesis .
qed

lemma value_copy_loop:
  "(write_loop (\<lambda>i. do { k \<leftarrow> u64 (off + i); nth_chk node k }) (replicate M 0) [0..<M] = Some v)
   = ((M = 0 \<or> (off + M \<le> length node \<and> off + M \<le> 2 ^ 64)) \<and> v = take M (drop off node))"
proof (cases "M = 0")
  case True
  then show ?thesis by (auto simp: write_loop_def)
next
  case False
  then show ?thesis by (simp add: copy_loop_Some)
qed

lemma resolve2_SomeD:
  assumes r: "resolve2 M node t key kp = Some (node_type, val, value_length, kp')"
    and key: "length key = NIBBLE_LENGTH"
    and l0: "length_l t ! 0 < 2 ^ 31"
  shows "\<exists>fs. take_dot_drop 33 node (offset_l t ! 0) = Some fs \<and> length fs = 33
       \<and> num_fields t = 2 \<and> 1 \<le> length_l t ! 0 \<and> length_l t ! 0 \<le> 33
       \<and> drop_bit 4 (fs ! 0) < 4
       \<and> (odd (drop_bit 4 (fs ! 0)) \<or> fs ! 0 AND 15 = 0)
       \<and> kp + (2 * (length_l t ! 0) + ind (odd (drop_bit 4 (fs ! 0))) - 2) \<le> 64
       \<and> take (2 * (length_l t ! 0) + ind (odd (drop_bit 4 (fs ! 0))) - 2) (drop kp key)
           = hp_path (take (length_l t ! 0) fs)
       \<and> node_type = ind (1 < drop_bit 4 (fs ! 0))
       \<and> val = take M (drop (offset_l t ! 1) node)
       \<and> (M = 0 \<or> offset_l t ! 1 + M \<le> length node)
       \<and> value_length = length_l t ! 1
       \<and> as_u32 value_length \<le> as_u32 M
       \<and> kp' = kp + (2 * (length_l t ! 0) + ind (odd (drop_bit 4 (fs ! 0))) - 2)"
proof -
  from r obtain fs nib niblen where
    nf: "num_fields t = 2"
    and fs: "take_dot_drop 33 node (offset_l t ! 0) = Some fs"
    and cd: "compact_decode 64 fs (length_l t ! 0) = Some (nib, niblen)"
    and kp: "kp \<le> 64" and ge: "as_u32 niblen \<le> as_u32 (64 - kp)"
    and loop: "for_loop (\<lambda>i _. resolve2_key_check nib niblen key kp i) [0..<64] () = Some ()"
    and vl: "value_length = length_l t ! 1" "as_u32 value_length \<le> as_u32 M"
    and kp': "kp' = kp + niblen"
    and cp: "write_loop (\<lambda>i. do { k \<leftarrow> u64 (offset_l t ! 1 + i); nth_chk node k })
               (replicate M 0) [0..<M] = Some val"
    and nt: "node_type = ind (1 < drop_bit 4 (fs ! 0))"
    unfolding resolve2_def
    by (auto simp: Option.bind_eq_Some_conv NIBBLE_LENGTH_def split: prod.splits)
  from fs have lfs: "length fs = 33" by (simp add: take_dot_drop_Some)
  let ?od = "odd (drop_bit 4 (fs ! 0))"
  let ?len = "length_l t ! 0"
  let ?cnt = "2 * ?len + ind ?od - 2"
  from cd have c: "drop_bit 4 (fs ! 0) < 4" "?od \<or> fs ! 0 AND 15 = 0" "2 \<le> 2 * ?len + ind ?od"
    "as_u32 ?cnt \<le> 64" "niblen = ?cnt" "nib = map (compact_nibble fs ?od) [0..<64]"
    unfolding compact_decode_eq [OF lfs] Let_def by (simp_all split: if_splits)
  have "?cnt < 2 ^ 32" using l0 by (auto simp: ind_def)
  then have cnt: "as_u32 ?cnt = ?cnt" by (rule as_u32_id)
  with c(4) have c64: "?cnt \<le> 64" by simp
  have k64: "as_u32 (64 - kp) = 64 - kp" by (rule as_u32_id) simp
  from ge c(5) cnt k64 kp have fit: "kp + ?cnt \<le> 64" by simp
  have len1: "1 \<le> ?len" using c(3) by (simp add: ind_def split: if_splits)
  have len33: "?len \<le> 33" using c64 by (simp add: ind_def split: if_splits)
  have lnib: "length nib = 64" by (simp add: c(6))
  from loop have "take ?cnt nib = take ?cnt (drop kp key)"
    unfolding c(5) using key_check_loop [OF c64 fit _ lnib] key by (simp add: NIBBLE_LENGTH_def)
  moreover have "take ?cnt nib = map (compact_nibble fs ?od) [0..<?cnt]"
    using c64 by (simp add: c(6) take_map)
  moreover have "map (compact_nibble fs ?od) [0..<?cnt] = hp_path (take ?len fs)"
    using compact_nibbles_hp_path [OF len1, of fs] len33 lfs by simp
  ultimately have path: "take ?cnt (drop kp key) = hp_path (take ?len fs)" by simp
  from cp have v: "val = take M (drop (offset_l t ! 1) node)"
    "M = 0 \<or> offset_l t ! 1 + M \<le> length node"
    by (auto simp: value_copy_loop)
  show ?thesis
    using fs lfs nf len1 len33 c(1,2) fit path nt v vl kp' c(5) by simp
qed

lemma first_slot_in_node:
  assumes "take_dot_drop 33 node off = Some fs" and "off + len \<le> length node" and "len \<le> 33"
  shows "take len fs = take len (drop off node)"
proof -
  from assms(1) have l: "length fs = 33"
    and a: "\<And>i. i < 33 \<Longrightarrow> fs ! i = (if i + off < length node then node ! (i + off) else node ! 0)"
    by (simp_all add: take_dot_drop_Some)
  have "\<And>i. i < len \<Longrightarrow> fs ! i = node ! (off + i)"
    using a assms(2,3) by (simp add: add.commute)
  then show ?thesis using l assms(2,3)
    by (auto simp: list_eq_iff_nth_eq)
qed

lemma unat_and_1: "unat ((w :: u8) AND 1) = ind (odd w)"
  by (simp add: parity_cases)

text \<open>
  Claim C6. \<open>resolve2\<close>, on a 2-field node (a key of 64 nibbles, a table whose two fields lie
  in the node, a node of less than \<open>2 ^ 31\<close> bytes) whose first field starts with byte \<open>h\<close>,
  succeeds only if the high nibble \<open>t\<close> of \<open>h\<close> is below 4, with even \<open>t\<close> forcing the low
  nibble of \<open>h\<close> to be zero (it is skipped) and odd \<open>t\<close> making the low nibble of \<open>h\<close> the first
  path nibble, and only if the path of the field (\<open>count = 2 * field_length + (t & 1) - 2\<close>
  nibbles) equals the key nibbles at positions \<open>[cursor, cursor + count)\<close>. On success it
  returns node type \<open>LEAF\<close> iff \<open>t \<ge> 2\<close>, the bytes at the second field's offset as the
  extracted value with the second field's recorded length, and the cursor advanced by
  exactly \<open>count\<close>.
\<close>

theorem resolve2_leaf_extension:
  assumes "resolve2 M node t key kp = Some (node_type, val, value_length, kp')"
    and "length key = NIBBLE_LENGTH"
    and "\<forall>i<2. offset_l t ! i + length_l t ! i \<le> length node"
    and "length node < 2 ^ 31"
  shows "num_fields t = 2
       \<and> 1 \<le> length_l t ! 0
       \<and> drop_bit 4 (node ! (offset_l t ! 0)) < 4
       \<and> (even (drop_bit 4 (node ! (offset_l t ! 0))) \<longrightarrow> node ! (offset_l t ! 0) AND 15 = 0)
       \<and> kp + (2 * (length_l t ! 0) + unat (drop_bit 4 (node ! (offset_l t ! 0)) AND 1) - 2) \<le> 64
       \<and> take (2 * (length_l t ! 0) + unat (drop_bit 4 (node ! (offset_l t ! 0)) AND 1) - 2)
            (drop kp key)
           = hp_path (take (length_l t ! 0) (drop (offset_l t ! 0) node))
       \<and> (node_type = LEAF) = (2 \<le> drop_bit 4 (node ! (offset_l t ! 0)))
       \<and> node_type \<le> 1
       \<and> val = take M (drop (offset_l t ! 1) node)
       \<and> value_length = length_l t ! 1
       \<and> value_length \<le> M
       \<and> kp' = kp + (2 * (length_l t ! 0) + unat (drop_bit 4 (node ! (offset_l t ! 0)) AND 1) - 2)"
proof -
  from assms(3) have in0: "offset_l t ! 0 + length_l t ! 0 \<le> length node"
    and in1: "offset_l t ! 1 + length_l t ! 1 \<le> length node" by simp_all
  from in0 assms(4) have l0: "length_l t ! 0 < 2 ^ 31" by simp
  from resolve2_SomeD [OF assms(1,2) l0] obtain fs where
    fs: "take_dot_drop 33 node (offset_l t ! 0) = Some fs" and lfs: "length fs = 33"
    and d: "num_fields t = 2" "1 \<le> length_l t ! 0" "length_l t ! 0 \<le> 33"
      "drop_bit 4 (fs ! 0) < 4" "odd (drop_bit 4 (fs ! 0)) \<or> fs ! 0 AND 15 = 0"
      "kp + (2 * (length_l t ! 0) + ind (odd (drop_bit 4 (fs ! 0))) - 2) \<le> 64"
      "take (2 * (length_l t ! 0) + ind (odd (drop_bit 4 (fs ! 0))) - 2) (drop kp key)
           = hp_path (take (length_l t ! 0) fs)"
      "node_type = ind (1 < drop_bit 4 (fs ! 0))"
      "val = take M (drop (offset_l t ! 1) node)"
      "M = 0 \<or> offset_l t ! 1 + M \<le> length node"
      "value_length = length_l t ! 1"
      "as_u32 value_length \<le> as_u32 M"
      "kp' = kp + (2 * (length_l t ! 0) + ind (odd (drop_bit 4 (fs ! 0))) - 2)"
    by blast
  have tk: "take (length_l t ! 0) fs = take (length_l t ! 0) (drop (offset_l t ! 0) node)"
    by (rule first_slot_in_node [OF fs in0 d(3)])
  have h: "fs ! 0 = node ! (offset_l t ! 0)"
  proof -
    have "take (length_l t ! 0) fs ! 0 = take (length_l t ! 0) (drop (offset_l t ! 0) node) ! 0"
      by (simp only: tk)
    then show ?thesis using d(2) in0 by simp
  qed
  have vl: "value_length \<le> M"
  proof (cases "M = 0")
    case True
    with d(12) have "as_u32 value_length = 0" by (simp add: as_u32_def)
    moreover have "value_length < 2 ^ 32" using in1 assms(4) d(11) by simp
    ultimately show ?thesis by (simp add: as_u32_id)
  next
    case False
    with d(10) assms(4) have "M < 2 ^ 32" by simp
    moreover have "value_length < 2 ^ 32" using in1 assms(4) d(11) by simp
    ultimately show ?thesis using d(12) by (simp add: as_u32_id)
  qed
  have nt: "(node_type = LEAF) = (2 \<le> drop_bit 4 (fs ! 0))" "node_type \<le> 1"
    unfolding d(8) by (auto simp: LEAF_def ind_def word_less_nat_alt word_le_nat_alt)
  show ?thesis
    using d(1,2,4,5,6,7,9,11,13) vl nt
    by (simp add: h [symmetric] tk [symmetric] unat_and_1)
qed


lemma resolve2_SomeI:
  assumes nf: "num_fields t = 2" and lens: "1 < length (offset_l t)" "1 < length (length_l t)"
    and fs: "take_dot_drop 33 node (offset_l t ! 0) = Some fs"
    and cd: "compact_decode 64 fs (length_l t ! 0) = Some (nib, cnt)"
    and fit: "kp + cnt \<le> 64" and key: "length key = 64"
    and eq: "take cnt nib = take cnt (drop kp key)"
    and vl: "length_l t ! 1 \<le> M" and room: "offset_l t ! 1 + M \<le> length node"
    and N: "length node < 2 ^ 32"
  shows "resolve2 M node t key kp =
     Some (ind (1 < drop_bit 4 (fs ! 0)), take M (drop (offset_l t ! 1) node), length_l t ! 1, kp + cnt)"
proof -
  from fs have lfs: "length fs = 33" by (simp add: take_dot_drop_Some)
  from cd have lnib: "length nib = 64"
    unfolding compact_decode_eq [OF lfs] Let_def by (auto split: if_splits)
  from fit have c64: "cnt \<le> 64" by simp
  have loop: "for_loop (\<lambda>i _. resolve2_key_check nib cnt key kp i) [0..<64] () = Some ()"
    using key_check_loop [OF c64 fit key lnib] eq by simp
  have cp: "write_loop (\<lambda>i. do { k \<leftarrow> u64 (offset_l t ! 1 + i); nth_chk node k })
               (replicate M 0) [0..<M] = Some (take M (drop (offset_l t ! 1) node))"
    using room N by (simp add: value_copy_loop)
  have M32: "M < 2 ^ 32" using room N by simp
  have e: "noir_assert (num_fields t = 2) = Some ()"
    "nth_chk (offset_l t) 0 = Some (offset_l t ! 0)"
    "take_dot_drop (1 + 64 div 2) node (offset_l t ! 0) = Some fs"
    "nth_chk (length_l t) 0 = Some (length_l t ! 0)"
    "sub_chk 64 kp = Some (64 - kp)"
    "noir_assert (as_u32 (64 - kp) \<ge> as_u32 cnt) = Some ()"
    "nth_chk (length_l t) 1 = Some (length_l t ! 1)"
    "noir_assert (as_u32 (length_l t ! 1) \<le> as_u32 M) = Some ()"
    "u64 (kp + cnt) = Some (kp + cnt)"
    "nth_chk (offset_l t) 1 = Some (offset_l t ! 1)"
    "u64 (offset_l t ! 1 + M) = Some (offset_l t ! 1 + M)"
    "noir_assert (as_u32 (offset_l t ! 1 + M) \<le> as_u32 (length node)) = Some ()"
    "nth_chk fs 0 = Some (fs ! 0)"
    using nf lens lfs fs fit vl room N M32 by (auto simp: as_u32_def)
  show ?thesis
    unfolding resolve2_def NIBBLE_LENGTH_def
    by (simp only: e cd loop cp Option.bind_lunit prod.case Let_def)
qed

lemma storage_leaf_window_length [simp]: "length storage_leaf_window = 532"
  by (simp add: storage_leaf_window_def storage_leaf_def)

lemma storage_leaf_first_slot:
  "take_dot_drop 33 storage_leaf_window 2 = Some (0x20 # replicate 32 0)"
proof -
  have "take_dot_drop 33 storage_leaf_window 2 = Some (take 33 (drop 2 storage_leaf_window))"
    by (rule take_dot_drop_window) simp_all
  moreover have "take 33 (drop 2 storage_leaf_window) = 0x20 # replicate 32 0"
    by (simp add: storage_leaf_window_def storage_leaf_def)
  ultimately show ?thesis by simp
qed

lemma zero_path_nibbles:
  "map (compact_nibble (h # replicate 32 0) False) [0..<64] = replicate 64 0"
proof -
  have "\<And>k. k < 64 \<Longrightarrow> compact_nibble (h # replicate 32 0) False k = 0"
  proof -
    fix k :: nat assume "k < 64"
    then have "k div 2 < 32" by simp
    then show "compact_nibble (h # replicate 32 0) False k = 0"
      by (simp add: compact_nibble_def Let_def)
  qed
  then show ?thesis by (auto simp: list_eq_iff_nth_eq)
qed

lemma storage_leaf_compact_decode:
  "compact_decode 64 (0x20 # replicate 32 0) 33 = Some (replicate 64 0, 64)"
proof -
  have l: "length (0x20 # replicate 32 (0 :: u8)) = 33" by simp
  have d: "drop_bit 4 (0x20 :: u8) = 2" by (simp add: drop_bit_eq_div)
  have a: "(0x20 :: u8) AND 15 = 0" by simp
  show ?thesis
    unfolding compact_decode_eq [OF l] Let_def
    by (simp add: d a zero_path_nibbles as_u32_def)
qed

lemma resolve2_storage_leaf:
  "resolve2 33 storage_leaf_window storage_leaf_table zero_nibbles 0
     = Some (LEAF, take 33 (drop 36 storage_leaf_window), 3, 64)"
proof -
  have d: "drop_bit 4 (0x20 :: u8) = 2" by (simp add: drop_bit_eq_div)
  have "resolve2 33 storage_leaf_window storage_leaf_table zero_nibbles 0 =
     Some (ind (1 < drop_bit 4 ((0x20 # replicate 32 (0 :: u8)) ! 0)),
           take 33 (drop (offset_l storage_leaf_table ! 1) storage_leaf_window),
           length_l storage_leaf_table ! 1, 0 + 64)"
    by (rule resolve2_SomeI [where nib = "replicate 64 0"])
       (simp_all add: storage_leaf_table_def storage_leaf_first_slot storage_leaf_compact_decode
         zero_nibbles_def)
  then show ?thesis by (simp add: d LEAF_def storage_leaf_table_def)
qed

theorem resolve2_leaf_extension_witness:
  "resolve2 33 storage_leaf_window storage_leaf_table zero_nibbles 0
     = Some (LEAF, take 33 (drop 36 storage_leaf_window), 3, 64)
   \<and> length zero_nibbles = NIBBLE_LENGTH
   \<and> length storage_leaf_window < 2 ^ 31
   \<and> num_fields storage_leaf_table = 2
   \<and> take 64 (drop 0 zero_nibbles) = hp_path (take 33 (drop 2 storage_leaf_window))"
proof -
  have k: "length zero_nibbles = NIBBLE_LENGTH" by (simp add: zero_nibbles_def NIBBLE_LENGTH_def)
  have i: "\<forall>i<2. offset_l storage_leaf_table ! i + length_l storage_leaf_table ! i
             \<le> length storage_leaf_window"
    by (simp add: storage_leaf_table_def less_Suc_eq numeral_2_eq_2)
  have n: "length storage_leaf_window < 2 ^ 31" by simp
  have h: "storage_leaf_window ! 2 = 0x20"
    by (simp add: storage_leaf_window_def storage_leaf_def)
  have d: "drop_bit 4 (0x20 :: u8) = 2" by (simp add: drop_bit_eq_div)
  have a: "unat ((2 :: u8) AND 1) = 0" by simp
  from resolve2_leaf_extension [OF resolve2_storage_leaf k i n]
  have "take 64 (drop 0 zero_nibbles) = hp_path (take 33 (drop 2 storage_leaf_window))"
    by (simp add: storage_leaf_table_def h d a)
  with resolve2_storage_leaf k n show ?thesis
    by (simp add: storage_leaf_table_def)
qed

lemma decode_len_data_type:
  assumes "decode_len arr = Some h"
  shows "data_type_h h = STRING \<or> data_type_h h = LIST"
proof -
  from assms have "arr \<noteq> []" by (auto simp: decode_len_def)
  from decode_len_eq [OF this] assms show ?thesis
    by (auto simp: Let_def split: if_splits)
qed

lemma field_start_upd:
  "j \<le> i \<Longrightarrow> field_start off0 (dec_off[i := x]) (dec_len[i := y]) j = field_start off0 dec_off dec_len j"
  by (simp add: field_start_def)

lemma field_decoded_upd:
  "j < i \<Longrightarrow> field_decoded input off0 (dec_off[i := x]) (dec_len[i := y]) (dec_type[i := z]) j
           = field_decoded input off0 dec_off dec_len dec_type j"
  by (simp add: field_decoded_def field_start_upd Let_def split: option.splits)

lemma decode1_inv_step:
  assumes i: "i < F" and inv: "decode1_inv input F off0 total_len i st"
    and body: "decode1_body input total_len i st = Some st'"
  shows "decode1_inv input F off0 total_len (Suc i) st'"
proof -
  obtain offset nf dec_off dec_len dec_type where st: "st = (offset, nf, dec_off, dec_len, dec_type)"
    by (cases st) auto
  from inv have len: "length dec_off = F" "length dec_len = F" "length dec_type = F"
    and nf: "nf \<le> i" and stop: "nf < i \<longrightarrow> offset = total_len"
    and cur: "offset = field_start off0 dec_off dec_len nf"
    and flds: "\<And>j. j < nf \<Longrightarrow> dec_off ! j + dec_len ! j \<le> offset
                        \<and> field_decoded input off0 dec_off dec_len dec_type j"
    and zeros: "\<And>j. nf \<le> j \<Longrightarrow> j < F \<Longrightarrow> dec_off ! j = 0 \<and> dec_len ! j = 0 \<and> dec_type ! j = 0"
    unfolding decode1_inv_def st prod.case by blast+
  from body obtain header h where
    tdd: "take_dot_drop (MAX_LEN_IN_BYTES + 1) input offset = Some header"
    and dl: "decode_len header = Some h"
    and st': "st' = (offset + ind (offset \<noteq> total_len) * (offset_h h + length_h h),
                   nf + ind (offset \<noteq> total_len),
                   dec_off[i := ind (offset \<noteq> total_len) * (offset + (1 - data_type_h h) * offset_h h)],
                   dec_len[i := ind (offset \<noteq> total_len) * (length_h h + data_type_h h * offset_h h)],
                   dec_type[i := ind (offset \<noteq> total_len) * data_type_h h])"
    by (auto simp: decode1_body_def st Option.bind_eq_Some_conv Let_def)
  show ?thesis
  proof (cases "offset = total_len")
    case True
    then have st'': "st' = (offset, nf, dec_off[i := 0], dec_len[i := 0], dec_type[i := 0])"
      by (simp add: st')
    show ?thesis
      unfolding decode1_inv_def st'' prod.case
      using len nf True cur flds zeros i
      by (auto simp: field_start_upd field_decoded_upd nth_list_update)
  next
    case False
    with stop nf have nfi: "nf = i" by auto
    from decode_len_data_type [OF dl]
    have ty: "data_type_h h = 0 \<or> data_type_h h = 1" by (simp add: STRING_def LIST_def)
    let ?o = "offset + (1 - data_type_h h) * offset_h h"
    let ?l = "length_h h + data_type_h h * offset_h h"
    have st'': "st' = (offset + (offset_h h + length_h h), Suc i,
                       dec_off[i := ?o], dec_len[i := ?l], dec_type[i := data_type_h h])"
      using False by (simp add: st' nfi)
    have sum: "?o + ?l = offset + (offset_h h + length_h h)" using ty by auto
    have new: "field_decoded input off0 (dec_off[i := ?o]) (dec_len[i := ?l])
                 (dec_type[i := data_type_h h]) i"
      unfolding field_decoded_def Let_def field_start_upd [OF order_refl]
      using cur tdd dl ty len i
      by (auto simp: nfi STRING_def LIST_def)
    have old: "\<And>j. j < i \<Longrightarrow> dec_off ! j + dec_len ! j \<le> offset + (offset_h h + length_h h)
                 \<and> field_decoded input off0 (dec_off[i := ?o]) (dec_len[i := ?l])
                     (dec_type[i := data_type_h h]) j"
      using flds by (simp add: nfi field_decoded_upd trans_le_add1)
    show ?thesis
      unfolding decode1_inv_def st'' prod.case
      using len i sum new old zeros
      by (auto simp: field_start_def nfi less_Suc_eq nth_list_update)
  qed
qed


lemma decode1_unfold:
  assumes "decode1 F input = Some t"
  shows "\<exists>h nf dec_off dec_len dec_type.
    decode_len input = Some h \<and> data_type_h h = LIST
    \<and> length_h h + offset_h h \<le> length input
    \<and> for_loop (decode1_body input (length_h h + offset_h h)) [0..<F]
                 (offset_h h, 0, replicate F 0, replicate F 0, replicate F 0)
               = Some (length_h h + offset_h h, nf, dec_off, dec_len, dec_type)
    \<and> t = \<lparr>offset_l = dec_off, length_l = dec_len, data_type_l = dec_type, num_fields = nf\<rparr>"
  using assms unfolding decode1_def
  by (auto simp: Option.bind_eq_Some_conv Let_def split: prod.splits)

lemma decode1_SomeD:
  assumes "decode1 F input = Some t"
  shows "\<exists>h. decode_len input = Some h \<and> data_type_h h = LIST
           \<and> offset_h h + length_h h \<le> length input
           \<and> decode1_inv input F (offset_h h) (offset_h h + length_h h) F
                (offset_h h + length_h h, num_fields t, offset_l t, length_l t, data_type_l t)"
proof -
  from decode1_unfold [OF assms] obtain h nf dec_off dec_len dec_type where
    h: "decode_len input = Some h" and ty: "data_type_h h = LIST"
    and fit: "length_h h + offset_h h \<le> length input"
    and loop: "for_loop (decode1_body input (length_h h + offset_h h)) [0..<F]
                 (offset_h h, 0, replicate F 0, replicate F 0, replicate F 0)
               = Some (length_h h + offset_h h, nf, dec_off, dec_len, dec_type)"
    and t: "t = \<lparr>offset_l = dec_off, length_l = dec_len, data_type_l = dec_type, num_fields = nf\<rparr>"
    by blast
  have "decode1_inv input F (offset_h h) (length_h h + offset_h h) F
          (length_h h + offset_h h, nf, dec_off, dec_len, dec_type)"
  proof (rule for_loop_invariant
      [OF loop, where P = "decode1_inv input F (offset_h h) (length_h h + offset_h h)"])
    show "decode1_inv input F (offset_h h) (length_h h + offset_h h) 0
            (offset_h h, 0, replicate F 0, replicate F 0, replicate F 0)"
      by (simp add: decode1_inv_def field_start_def)
  next
    fix i s s'
    assume "i < F" "decode1_inv input F (offset_h h) (length_h h + offset_h h) i s"
      "decode1_body input (length_h h + offset_h h) i s = Some s'"
    then show "decode1_inv input F (offset_h h) (length_h h + offset_h h) (Suc i) s'"
      by (rule decode1_inv_step)
  qed
  with h ty fit t show ?thesis
    by (auto simp: add.commute)
qed

text \<open>
  Claim C3. Whenever \<open>decode1\<close> (the general list decoder with table capacity \<open>F\<close>) returns,
  its table satisfies: \<open>num_fields \<le> F\<close>; for all \<open>i < num_fields\<close>,
  \<open>offset[i] + length[i] \<le> input.len()\<close>; for all \<open>i \<ge> num_fields\<close>,
  \<open>offset[i] = length[i] = data_type[i] = 0\<close>; every field \<open>i < num_fields\<close> is the item
  whose header stands where the previous field ends (\<open>field_decoded\<close>: for a string item the
  offset points at the first payload byte, for a list item at the item's header, and the
  length includes the header); and the fields end exactly at the end of the list payload
  (a decode whose item extents do not land there fails).
\<close>

theorem decode1_table_invariant:
  assumes "decode1 F input = Some t"
  shows "\<exists>h. decode_len input = Some h \<and> data_type_h h = LIST
           \<and> offset_h h + length_h h \<le> length input
           \<and> num_fields t \<le> F
           \<and> length (offset_l t) = F \<and> length (length_l t) = F \<and> length (data_type_l t) = F
           \<and> (\<forall>i<num_fields t. offset_l t ! i + length_l t ! i \<le> length input)
           \<and> (\<forall>i. num_fields t \<le> i \<and> i < F \<longrightarrow>
                  offset_l t ! i = 0 \<and> length_l t ! i = 0 \<and> data_type_l t ! i = 0)
           \<and> (\<forall>i<num_fields t.
                  field_decoded input (offset_h h) (offset_l t) (length_l t) (data_type_l t) i)
           \<and> field_start (offset_h h) (offset_l t) (length_l t) (num_fields t)
               = offset_h h + length_h h"
proof -
  from decode1_SomeD [OF assms] obtain h where
    h: "decode_len input = Some h" "data_type_h h = LIST" "offset_h h + length_h h \<le> length input"
    and inv: "decode1_inv input F (offset_h h) (offset_h h + length_h h) F
                (offset_h h + length_h h, num_fields t, offset_l t, length_l t, data_type_l t)"
    by blast
  from inv have a: "length (offset_l t) = F" "length (length_l t) = F" "length (data_type_l t) = F"
    "num_fields t \<le> F"
    "offset_h h + length_h h = field_start (offset_h h) (offset_l t) (length_l t) (num_fields t)"
    "\<And>j. j < num_fields t \<Longrightarrow> offset_l t ! j + length_l t ! j \<le> offset_h h + length_h h
        \<and> field_decoded input (offset_h h) (offset_l t) (length_l t) (data_type_l t) j"
    "\<And>j. num_fields t \<le> j \<Longrightarrow> j < F \<Longrightarrow>
        offset_l t ! j = 0 \<and> length_l t ! j = 0 \<and> data_type_l t ! j = 0"
    unfolding decode1_inv_def prod.case by blast+
  have "\<And>j. j < num_fields t \<Longrightarrow> offset_l t ! j + length_l t ! j \<le> length input"
    using a(6) h(3) by (meson le_trans)
  with h a show ?thesis by auto
qed


lemma take_dot_drop_3:
  assumes "arr \<noteq> []" and "n + 3 \<le> 2 ^ 64"
  shows "take_dot_drop 3 arr n =
     Some [if n < length arr then arr ! n else arr ! 0,
           if n + 1 < length arr then arr ! (n + 1) else arr ! 0,
           if n + 2 < length arr then arr ! (n + 2) else arr ! 0]"
  using assms
  by (auto simp: take_dot_drop_Some less_Suc_eq numeral_3_eq_3 add.commute)

lemma replicate_numeral: "replicate (numeral k) x = x # replicate (pred_numeral k) x"
  by (simp add: numeral_eq_Suc)

lemma rlp_decode_test_3:
  "decode1 5 [0xc9, 0x83, 0x63, 0x61, 0x74, 0x83, 0x64, 0x6f, 0x68, 0, 0]
     = Some \<lparr>offset_l = [2, 6, 9, 0, 0], length_l = [3, 3, 1, 0, 0],
             data_type_l = [0, 0, 0, 0, 0], num_fields = 3\<rparr>"
  by (simp add: decode1_def decode1_body_def decode_len_eq take_dot_drop_3 MAX_LEN_IN_BYTES_def
      Let_def STRING_def LIST_def upt_conv_Cons replicate_numeral)

lemma rlp_decode_test_empty:
  "decode1 1 [0xc0]
     = Some \<lparr>offset_l = [0], length_l = [0], data_type_l = [0], num_fields = 0\<rparr>"
  by (simp add: decode1_def decode1_body_def decode_len_eq take_dot_drop_3 MAX_LEN_IN_BYTES_def
      Let_def STRING_def LIST_def replicate_numeral)

theorem decode1_table_invariant_witness:
  "decode1 5 [0xc9, 0x83, 0x63, 0x61, 0x74, 0x83, 0x64, 0x6f, 0x68, 0, 0]
     = Some \<lparr>offset_l = [2, 6, 9, 0, 0], length_l = [3, 3, 1, 0, 0],
             data_type_l = [0, 0, 0, 0, 0], num_fields = 3\<rparr>
   \<and> decode_len [0xc9, 0x83, 0x63, 0x61, 0x74, 0x83, 0x64, 0x6f, 0x68, 0, 0]
       = Some \<lparr>offset_h = 1, length_h = 9, data_type_h = LIST\<rparr>
   \<and> field_start 1 [2, 6, 9, 0, 0] [3, 3, 1, 0, 0] 3 = 1 + 9
   \<and> field_decoded [0xc9, 0x83, 0x63, 0x61, 0x74, 0x83, 0x64, 0x6f, 0x68, 0, 0] 1
        [2, 6, 9, 0, 0] [3, 3, 1, 0, 0] [0, 0, 0, 0, 0] 2"
proof -
  let ?input = "[0xc9, 0x83, 0x63, 0x61, 0x74, 0x83, 0x64, 0x6f, 0x68, 0, 0] :: u8 list"
  have h: "decode_len ?input = Some \<lparr>offset_h = 1, length_h = 9, data_type_h = LIST\<rparr>"
    by (simp add: decode_len_eq Let_def)
  from decode1_table_invariant [OF rlp_decode_test_3] h
  have "field_start 1 [2, 6, 9, 0, 0] [3, 3, 1, 0, 0] 3 = 1 + 9"
    and "field_decoded ?input 1 [2, 6, 9, 0, 0] [3, 3, 1, 0, 0] [0, 0, 0, 0, 0] 2"
    by auto
  with rlp_decode_test_3 h show ?thesis by simp
qed

section \<open>Evaluations of the small-list decoder\<close>

lemmas small_lis_eval = decode1_small_lis_def decode1_small_lis_body_def decode_len_eq Let_def
  STRING_def LIST_def upt_conv_Cons replicate_numeral

text \<open>
  C4 (evaluation). The repository's own test decodes the one-byte list \<open>[0xc0]\<close> with
  \<open>decode1\<close> and one field slot: the single iteration is masked, and \<open>decode1\<close> reads its
  header through the guarded \<open>take_dot_drop\<close>.  \<open>decode1_small_lis\<close> reads \<open>input[offset]\<close>
  in every iteration, masked or not, so on the same well-formed list of (zero) short strings
  the read at index 1 is out of range and the call fails instead of returning \<open>decode1\<close>'s
  table.
\<close>

theorem decode1_small_lis_unpadded:
  "decode1 1 [0xc0]
     = Some \<lparr>offset_l = [0], length_l = [0], data_type_l = [0], num_fields = 0\<rparr>
   \<and> decode1_small_lis 1 [0xc0] = None"
  using rlp_decode_test_empty by (simp add: small_lis_eval)

lemma decode1_small_lis_3:
  "decode1_small_lis 5 [0xc9, 0x83, 0x63, 0x61, 0x74, 0x83, 0x64, 0x6f, 0x68, 0, 0]
     = Some \<lparr>offset_l = [2, 6, 9, 0, 0], length_l = [3, 3, 1, 0, 0],
             data_type_l = [0, 0, 0, 0, 0], num_fields = 3\<rparr>"
  by (simp add: small_lis_eval unat_sub_80)

lemma branch_window_length [simp]: "length branch_window = 532"
  by (simp add: branch_window_def branch_node_def)

lemma branch_window_nth:
  "branch_window ! 0 = 0xf1" "branch_window ! 1 = 0xa0" "branch_window ! Suc 0 = 0xa0"
  "34 \<le> k \<Longrightarrow> k < 50 \<Longrightarrow> branch_window ! k = 0x80"
  "50 \<le> k \<Longrightarrow> k < 532 \<Longrightarrow> branch_window ! k = 0"
  by (auto simp: branch_window_def branch_node_def nth_append nth_Cons')

lemma replicate_update_same [simp]: "(replicate n x)[i := x] = replicate n x"
proof (cases "i < n")
  case True
  then have "replicate n x ! i = x" by simp
  then show ?thesis by (metis list_update_id)
next
  case False
  then show ?thesis by (simp add: list_update_beyond)
qed

lemma upt_17: "[0..<17] = [0, 1, 2, 3, 4, 5, 6, 7, 8, 9, 10, 11, 12, 13, 14, 15, 16]"
  by (simp add: upt_conv_Cons)

lemma branch_step_0:
  assumes "length os = 17" and "length ls = 17"
  shows "decode1_small_lis_body branch_window 50 0 (Suc 0, 0, os, ls, replicate 17 0)
         = Some (34, Suc 0, os[0 := 2], ls[0 := 32], replicate 17 0)"
  using assms
  by (simp add: decode1_small_lis_body_def branch_window_nth Let_def STRING_def unat_sub_80
      numeral_2_eq_2 [symmetric])

lemma branch_step:
  assumes "off = 33 + k" and "nf = k" and "1 \<le> k" and "k < 17"
    and "length os = 17" and "length ls = 17"
  shows "decode1_small_lis_body branch_window 50 k (off, nf, os, ls, replicate 17 0)
         = Some (Suc off, Suc k, os[k := Suc off], ls[k := 0], replicate 17 0)"
  using assms
  by (simp add: decode1_small_lis_body_def branch_window_nth Let_def STRING_def unat_sub_80)

lemma decode1_small_lis_branch_window:
  "decode1_small_lis 17 branch_window = Some branch_table"
proof -
  have ne: "branch_window \<noteq> []" by (simp add: branch_window_def branch_node_def)
  have h: "decode_len branch_window = Some \<lparr>offset_h = 1, length_h = 49, data_type_h = LIST\<rparr>"
    unfolding decode_len_eq [OF ne] by (simp add: branch_window_nth Let_def)
  have loop: "for_loop (decode1_small_lis_body branch_window 50) [0..<17]
                (Suc 0, 0, replicate 17 0, replicate 17 0, replicate 17 0)
              = Some (50, 17,
                  (replicate 17 0)[0 := 2, 1 := 35, 2 := 36, 3 := 37, 4 := 38, 5 := 39, 6 := 40,
                    7 := 41, 8 := 42, 9 := 43, 10 := 44, 11 := 45, 12 := 46, 13 := 47, 14 := 48,
                    15 := 49, 16 := 50],
                  (replicate 17 0)[0 := 32, 1 := 0, 2 := 0, 3 := 0, 4 := 0, 5 := 0, 6 := 0,
                    7 := 0, 8 := 0, 9 := 0, 10 := 0, 11 := 0, 12 := 0, 13 := 0, 14 := 0,
                    15 := 0, 16 := 0], replicate 17 0)"
    unfolding upt_17
    by (simp add: branch_step_0 branch_step)
  have os: "(replicate 17 0)[0 := 2, 1 := 35, 2 := 36, 3 := 37, 4 := 38, 5 := 39, 6 := 40,
                    7 := 41, 8 := 42, 9 := 43, 10 := 44, 11 := 45, 12 := 46, 13 := 47, 14 := 48,
                    15 := 49, 16 := 50] = (2 :: nat) # [35..<51]"
    by (simp add: replicate_numeral upt_conv_Cons)
  have ls: "(replicate 17 0)[0 := 32, 1 := 0, 2 := 0, 3 := 0, 4 := 0, 5 := 0, 6 := 0,
                    7 := 0, 8 := 0, 9 := 0, 10 := 0, 11 := 0, 12 := 0, 13 := 0, 14 := 0,
                    15 := 0, 16 := 0] = (32 :: nat) # replicate 16 0"
    by (simp add: replicate_numeral)
  have loop2: "for_loop (decode1_small_lis_body branch_window 50) [0..<17]
                (Suc 0, 0, replicate 17 0, replicate 17 0, replicate 17 0)
              = Some (50, 17, 2 # [35..<51], 32 # replicate 16 0, replicate 17 0)"
    using loop unfolding os ls .
  show ?thesis
    unfolding decode1_small_lis_def h Option.bind_lunit Let_def
    by (simp add: loop2 LIST_def branch_table_def)
qed

lemma decode_len_branch_window:
  "decode_len branch_window = Some \<lparr>offset_h = 1, length_h = 49, data_type_h = LIST\<rparr>"
proof -
  have ne: "branch_window \<noteq> []" by (simp add: branch_window_def branch_node_def)
  show ?thesis
    unfolding decode_len_eq [OF ne] by (simp add: branch_window_nth Let_def)
qed

lemma resolve17_branch_window:
  "resolve17 branch_window branch_table zero_nibbles 0 = Some (replicate 32 0xab, 32, 1)"
proof -
  have k: "length zero_nibbles = NIBBLE_LENGTH" by (simp add: zero_nibbles_def NIBBLE_LENGTH_def)
  have u: "\<forall>i<16. length_l branch_table ! i < 2 ^ 64"
    using branch_table_lengths by fastforce
  have z: "zero_nibbles ! 0 = 0" by (simp add: zero_nibbles_def)
  show ?thesis
    unfolding resolve17_iff [OF k u] z
    using branch_table_lengths
    by (simp add: branch_table_def branch_window_def branch_node_def)
qed

lemma resolve_nibble32_branch_window:
  "resolve_nibble32 zero_nibbles 0 branch_window = Some (BRANCH, replicate 32 0xab, 1)"
  by (simp add: resolve_nibble32_def MAX_NUM_FIELDS_def decode1_small_lis_branch_window
      resolve17_branch_window KEY_LENGTH_def BRANCH_def LEAF_def)
     (simp add: branch_table_def)

lemma verify_node_hash_branch_window:
  "verify_node_hash keccak256 branch_window h = Some (keccak256 branch_window 50 = h)"
  by (simp add: verify_node_hash_def decode_len_branch_window as_u32_def ind_def)

section \<open>The nibble cursor along a run\<close>

lemma resolve2_cursor:
  assumes "resolve2 M node t key kp = Some (ty, v, l, p)"
  shows "kp \<le> p"
  using assms unfolding resolve2_def
  by (auto simp: bind_eq_Some_conv split: prod.splits)

lemma resolve17_cursor:
  assumes "resolve17 node t key kp = Some (v, l, p)"
  shows "p = kp + 1"
  using assms unfolding resolve17_def
  by (auto simp: bind_eq_Some_conv)

lemma resolve_nibble32_cursor:
  assumes "resolve_nibble32 key kp node = Some (ty, v, p)"
  shows "kp \<le> p"
  using assms unfolding resolve_nibble32_def
  by (auto simp: bind_eq_Some_conv Let_def dest: resolve2_cursor resolve17_cursor
      split: if_splits prod.splits)

lemma verify_internal_node_cursor:
  assumes "verify_internal_node kc (h, p) kn path depth i = Some (h', p')"
  shows "p \<le> p'"
  using assms unfolding verify_internal_node_def
  by (auto simp: bind_eq_Some_conv Let_def dest: resolve_nibble32_cursor
      split: if_splits prod.splits)


lemma internal_steps_loop:
  assumes "for_loop (\<lambda>i refs. verify_internal_node kc refs kn path depth i) is s = Some r"
  shows "\<exists>states. internal_steps kc kn path depth is s = Some states
           \<and> hd states = s \<and> last states = r \<and> states \<noteq> [] \<and> sorted (map snd states)"
  using assms
proof (induction "is" arbitrary: s)
  case Nil
  then show ?case by simp
next
  case (Cons i "is")
  from Cons.prems obtain s' where
    step: "verify_internal_node kc s kn path depth i = Some s'"
    and rest: "for_loop (\<lambda>i refs. verify_internal_node kc refs kn path depth i) is s' = Some r"
    by (auto split: option.splits)
  from Cons.IH [OF rest] obtain states where
    st: "internal_steps kc kn path depth is s' = Some states" "hd states = s'"
      "last states = r" "states \<noteq> []" "sorted (map snd states)"
    by blast
  have mono: "snd s \<le> snd s'"
    using step verify_internal_node_cursor [of kc "fst s" "snd s" kn path depth i "fst s'" "snd s'"]
    by simp
  have le: "\<forall>x\<in>set (map snd states). snd s' \<le> x"
  proof -
    from st(2,4) obtain tl where "states = s' # tl" by (cases states) auto
    with st(5) show ?thesis by auto
  qed
  have "internal_steps kc kn path depth (i # is) s = Some (s # states)"
    using step st(1) by simp
  moreover have "sorted (map snd (s # states))"
    using st(5) le mono by (auto intro: order_trans)
  ultimately show ?case using st(3,4) by simp
qed

lemma key_as_nibbles_length:
  assumes "key_as_nibbles NIBBLE_LENGTH key = Some kn"
  shows "length key = 32"
  using assms unfolding key_as_nibbles_def NIBBLE_LENGTH_def
  by (auto simp: Let_def bind_eq_Some_conv)

lemma cursor_trace_loop:
  assumes kn: "key_as_nibbles NIBBLE_LENGTH (kc (key_tp self) msg_len) = Some kn"
    and one: "1 \<le> length (proof_tp self) div MAX_TRIE_NODE_LENGTH"
    and loop: "for_loop (\<lambda>i refs. verify_internal_node kc refs kn (proof_tp self) (depth_tp self) i)
                 [0..<length (proof_tp self) div MAX_TRIE_NODE_LENGTH - 1] (root, 0) = Some (h, kp)"
  shows "\<exists>tr. cursor_trace kc msg_len self root = Some tr \<and> hd tr = 0 \<and> sorted tr \<and> last tr = kp"
proof -
  from internal_steps_loop [OF loop] obtain states where
    st: "internal_steps kc kn (proof_tp self) (depth_tp self)
           [0..<length (proof_tp self) div MAX_TRIE_NODE_LENGTH - 1] (root, 0) = Some states"
      "hd states = (root, 0)" "last states = (h, kp)" "states \<noteq> []" "sorted (map snd states)"
    by blast
  have "cursor_trace kc msg_len self root = Some (map snd states)"
    unfolding cursor_trace_def using kn one st(1) by (simp add: sub_chk_eval)
  moreover have "hd (map snd states) = 0" using st(2,4) by (simp add: hd_map)
  moreover have "last (map snd states) = kp" using st(3,4) by (simp add: last_map)
  ultimately show ?thesis using st(5) by blast
qed

lemma terminal_cursor_leaf:
  assumes kn: "key_as_nibbles NIBBLE_LENGTH (kc (key_tp self) msg_len) = Some kn"
    and d: "1 \<le> depth_tp self"
    and off: "as_u32 (depth_tp self - 1) * MAX_TRIE_NODE_LENGTH < 2 ^ 32"
    and leaf: "memcpy (replicate MAX_TRIE_NODE_LENGTH 0) (proof_tp self)
                 (as_u32 (depth_tp self - 1) * MAX_TRIE_NODE_LENGTH) = Some leaf"
    and t: "decode leaf = Some t"
    and r: "resolve2 M leaf t kn kp = Some (ty, v, l, p)"
  shows "terminal_cursor kc msg_len decode M self kp = Some p"
  unfolding terminal_cursor_def using kn d off leaf t r
  by (simp add: sub_chk_eval u32_eval)

lemma verify_storage_leaf_node_SomeD:
  assumes "verify_storage_leaf_node kc self h klen kp kn = Some u"
  shows "\<exists>leaf t v l. 1 \<le> depth_tp self
         \<and> as_u32 (depth_tp self - 1) * MAX_TRIE_NODE_LENGTH < 2 ^ 32
         \<and> memcpy (replicate MAX_TRIE_NODE_LENGTH 0) (proof_tp self)
             (as_u32 (depth_tp self - 1) * MAX_TRIE_NODE_LENGTH) = Some leaf
         \<and> verify_node_hash kc leaf h = Some True
         \<and> decode1_small_lis 2 leaf = Some t
         \<and> resolve2 33 leaf t kn kp = Some (LEAF, v, l, 2 * klen)"
  using assms unfolding verify_storage_leaf_node_def
  by (auto simp: bind_eq_Some_conv split: prod.splits)

lemma verify_state_leaf_node_SomeD:
  assumes "verify_state_leaf_node M kc self h klen kp kn = Some u"
  shows "\<exists>leaf t v l. 1 \<le> depth_tp self
         \<and> as_u32 (depth_tp self - 1) * MAX_TRIE_NODE_LENGTH < 2 ^ 32
         \<and> memcpy (replicate MAX_TRIE_NODE_LENGTH 0) (proof_tp self)
             (as_u32 (depth_tp self - 1) * MAX_TRIE_NODE_LENGTH) = Some leaf
         \<and> verify_node_hash kc leaf h = Some True
         \<and> decode1 2 leaf = Some t
         \<and> resolve2 M leaf t kn kp = Some (LEAF, v, l, 2 * klen)"
  using assms unfolding verify_state_leaf_node_def
  by (auto simp: bind_eq_Some_conv Let_def split: prod.splits)


lemma storage_cursor_run:
  assumes "verify_storage_root kc self root = Some b"
  shows "\<exists>tr. cursor_trace kc 32 self root = Some tr \<and> hd tr = 0 \<and> sorted tr \<and> last tr \<le> 64
           \<and> terminal_cursor kc 32 (decode1_small_lis 2) 33 self (last tr) = Some 64"
proof -
  from assms obtain kn h kp u where
    kn: "key_as_nibbles NIBBLE_LENGTH (kc (key_tp self) 32) = Some kn"
    and one: "1 \<le> length (proof_tp self) div MAX_TRIE_NODE_LENGTH"
    and loop: "for_loop (\<lambda>i refs. verify_internal_node kc refs kn (proof_tp self) (depth_tp self) i)
                 [0..<length (proof_tp self) div MAX_TRIE_NODE_LENGTH - 1] (root, 0) = Some (h, kp)"
    and leaf: "verify_storage_leaf_node kc self h (length (kc (key_tp self) 32)) kp kn = Some u"
    unfolding verify_storage_root_def
    by (auto simp: bind_eq_Some_conv Let_def split: prod.splits)
  from cursor_trace_loop [OF kn one loop] obtain tr where
    tr: "cursor_trace kc 32 self root = Some tr" "hd tr = 0" "sorted tr" "last tr = kp"
    by blast
  from verify_storage_leaf_node_SomeD [OF leaf] obtain lf t v l where
    lf: "1 \<le> depth_tp self" "as_u32 (depth_tp self - 1) * MAX_TRIE_NODE_LENGTH < 2 ^ 32"
      "memcpy (replicate MAX_TRIE_NODE_LENGTH 0) (proof_tp self)
         (as_u32 (depth_tp self - 1) * MAX_TRIE_NODE_LENGTH) = Some lf"
      "decode1_small_lis 2 lf = Some t"
      "resolve2 33 lf t kn kp = Some (LEAF, v, l, 2 * length (kc (key_tp self) 32))"
    by blast
  have len: "2 * length (kc (key_tp self) 32) = 64"
    using key_as_nibbles_length [OF kn] by simp
  have "terminal_cursor kc 32 (decode1_small_lis 2) 33 self kp = Some 64"
    using terminal_cursor_leaf [where kc = kc and msg_len = 32 and self = self
        and decode = "decode1_small_lis 2", OF kn lf(1,2,3,4) lf(5)] len
    by simp
  moreover have "kp \<le> 64" using resolve2_cursor [OF lf(5)] len by simp
  ultimately show ?thesis using tr by auto
qed

lemma state_cursor_run:
  assumes "verify_state_root M kc self root = Some b"
  shows "\<exists>tr. cursor_trace kc 20 self root = Some tr \<and> hd tr = 0 \<and> sorted tr \<and> last tr \<le> 64
           \<and> terminal_cursor kc 20 (decode1 2) M self (last tr) = Some 64"
proof -
  from assms obtain kn h kp u where
    kn: "key_as_nibbles NIBBLE_LENGTH (kc (key_tp self) 20) = Some kn"
    and one: "1 \<le> length (proof_tp self) div MAX_TRIE_NODE_LENGTH"
    and loop: "for_loop (\<lambda>i refs. verify_internal_node kc refs kn (proof_tp self) (depth_tp self) i)
                 [0..<length (proof_tp self) div MAX_TRIE_NODE_LENGTH - 1] (root, 0) = Some (h, kp)"
    and leaf: "verify_state_leaf_node M kc self h (length (kc (key_tp self) 20)) kp kn = Some u"
    unfolding verify_state_root_def
    by (auto simp: bind_eq_Some_conv Let_def split: prod.splits)
  from cursor_trace_loop [OF kn one loop] obtain tr where
    tr: "cursor_trace kc 20 self root = Some tr" "hd tr = 0" "sorted tr" "last tr = kp"
    by blast
  from verify_state_leaf_node_SomeD [OF leaf] obtain lf t v l where
    lf: "1 \<le> depth_tp self" "as_u32 (depth_tp self - 1) * MAX_TRIE_NODE_LENGTH < 2 ^ 32"
      "memcpy (replicate MAX_TRIE_NODE_LENGTH 0) (proof_tp self)
         (as_u32 (depth_tp self - 1) * MAX_TRIE_NODE_LENGTH) = Some lf"
      "decode1 2 lf = Some t"
      "resolve2 M lf t kn kp = Some (LEAF, v, l, 2 * length (kc (key_tp self) 20))"
    by blast
  have len: "2 * length (kc (key_tp self) 20) = 64"
    using key_as_nibbles_length [OF kn] by simp
  have "terminal_cursor kc 20 (decode1 2) M self kp = Some 64"
    using terminal_cursor_leaf [where kc = kc and msg_len = 20 and self = self
        and decode = "decode1 2", OF kn lf(1,2,3,4) lf(5)] len
    by simp
  moreover have "kp \<le> 64" using resolve2_cursor [OF lf(5)] len by simp
  ultimately show ?thesis using tr by auto
qed

text \<open>
  C7 (amended). In every successful run of \<open>verify_storage_root\<close> and of
  \<open>verify_state_root\<close> the nibble cursor starts at 0, never decreases along the internal
  steps and is at most 64 when the leaf is reached, and the cursor that \<open>resolve2\<close> returns
  for the leaf is exactly 64.  Both drivers pass \<open>key.len()\<close> of the hashed key, which is 32
  bytes: also the state driver, whose \<open>self.key\<close> is a 20-byte address, ends at
  \<open>2 * 32 = 64\<close> and not at \<open>2 * 20 = 40\<close>.
\<close>

theorem nibble_cursor_run:
  "(verify_storage_root kc sp sroot = Some b \<longrightarrow>
      (\<exists>tr. cursor_trace kc 32 sp sroot = Some tr \<and> hd tr = 0 \<and> sorted tr \<and> last tr \<le> 64
         \<and> terminal_cursor kc 32 (decode1_small_lis 2) 33 sp (last tr) = Some 64))
   \<and> (verify_state_root M kc ap aroot = Some b' \<longrightarrow>
      (\<exists>tr. cursor_trace kc 20 ap aroot = Some tr \<and> hd tr = 0 \<and> sorted tr \<and> last tr \<le> 64
         \<and> terminal_cursor kc 20 (decode1 2) M ap (last tr) = Some 64))"
  using storage_cursor_run state_cursor_run by blast

section \<open>Two complete runs\<close>

lemma for_loop_fixpoint:
  assumes "\<And>i. i \<in> set is \<Longrightarrow> body i s = Some s"
  shows "for_loop body is s = Some s"
  using assms by (induction "is") auto

lemma key_as_nibbles_zero:
  "key_as_nibbles NIBBLE_LENGTH (replicate 32 0) = Some zero_nibbles"
proof -
  have "for_loop (\<lambda>i nibkey.
                 let nibs = byte_to_nibbles (replicate 32 0 ! i)
                 in do { nibkey1 \<leftarrow> upd_chk nibkey (2 * i) (fst nibs);
                         upd_chk nibkey1 (2 * i + 1) (snd nibs) })
             [0..<32] (replicate 64 (0 :: u8)) = Some (replicate 64 0)"
    by (rule for_loop_fixpoint) (simp add: byte_to_nibbles_eq Let_def upd_chk_eval)
  then show ?thesis
    by (simp add: key_as_nibbles_def NIBBLE_LENGTH_def zero_nibbles_def Let_def)
qed

lemma assert_subarray_Some:
  "(assert_subarray s a len off = Some u) =
     (\<forall>i<length s. i < len \<longrightarrow> off + i < 2 ^ 32 \<and> off + i < length a \<and> s ! i = a ! (off + i))"
  unfolding assert_subarray_def assert_loop_Some
  by (auto simp: bind_eq_Some_conv)

lemma lead_zeros_replicate:
  assumes "x \<noteq> 0"
  shows "lead_zeros (replicate n 0 @ x # xs) = n"
  using assms by (induction n) (simp_all add: lead_zeros_def)


section \<open>The two-node storage proof\<close>

lemma odd_leaf_window_length [simp]: "length odd_leaf_window = 532"
  by (simp add: odd_leaf_window_def odd_leaf_def)

lemma odd_leaf_window_nth:
  "odd_leaf_window ! 0 = 0xe5" "odd_leaf_window ! 1 = 0xa0" "odd_leaf_window ! Suc 0 = 0xa0"
  "odd_leaf_window ! 34 = 0x83"
  by (simp_all add: odd_leaf_window_def odd_leaf_def nth_append)

lemma decode_len_odd_leaf_window:
  "decode_len odd_leaf_window = Some \<lparr>offset_h = 1, length_h = 37, data_type_h = LIST\<rparr>"
proof -
  have ne: "odd_leaf_window \<noteq> []" by (simp add: odd_leaf_window_def odd_leaf_def)
  show ?thesis
    unfolding decode_len_eq [OF ne] by (simp add: odd_leaf_window_nth Let_def)
qed

lemma verify_node_hash_odd_leaf_window:
  "verify_node_hash keccak256 odd_leaf_window h = Some (keccak256 odd_leaf_window 38 = h)"
  by (simp add: verify_node_hash_def decode_len_odd_leaf_window as_u32_def ind_def)

lemma decode1_small_lis_odd_leaf_window:
  "decode1_small_lis 2 odd_leaf_window = Some odd_leaf_table"
  by (simp add: decode1_small_lis_def decode1_small_lis_body_def decode_len_odd_leaf_window
      odd_leaf_window_nth Let_def STRING_def LIST_def upt_conv_Cons replicate_numeral unat_sub_80
      odd_leaf_table_def)

lemma odd_leaf_first_slot:
  "take_dot_drop 33 odd_leaf_window 2 = Some (0x30 # replicate 31 0 @ [0x83])"
proof -
  have "take_dot_drop 33 odd_leaf_window 2 = Some (take 33 (drop 2 odd_leaf_window))"
    by (rule take_dot_drop_window) simp_all
  moreover have "take 33 (drop 2 odd_leaf_window) = 0x30 # replicate 31 0 @ [0x83]"
    by (simp add: odd_leaf_window_def odd_leaf_def)
  ultimately show ?thesis by simp
qed

lemma odd_path_nibbles:
  "take 63 (map (compact_nibble (0x30 # replicate 31 0 @ [0x83]) True) [0..<64]) = replicate 63 0"
proof -
  have "\<And>k. k < 63 \<Longrightarrow> compact_nibble (0x30 # replicate 31 0 @ [0x83]) True k = 0"
  proof -
    fix k :: nat assume k: "k < 63"
    then have "k div 2 < 32" "k div 2 \<le> 31" by simp_all
    moreover have "odd k \<Longrightarrow> k div 2 < 31" using k by presburger
    ultimately show "compact_nibble (0x30 # replicate 31 0 @ [0x83]) True k = 0"
      by (auto simp: compact_nibble_def Let_def nth_Cons' nth_append)
  qed
  then show ?thesis by (auto simp: list_eq_iff_nth_eq)
qed

lemma odd_leaf_compact_decode:
  "compact_decode 64 (0x30 # replicate 31 0 @ [0x83]) 32
     = Some (map (compact_nibble (0x30 # replicate 31 0 @ [0x83]) True) [0..<64], 63)"
proof -
  have l: "length (0x30 # replicate 31 (0 :: u8) @ [0x83]) = 33" by simp
  have d: "drop_bit 4 (0x30 :: u8) = 3" by (simp add: drop_bit_eq_div)
  show ?thesis
    unfolding compact_decode_eq [OF l] Let_def
    by (simp add: d as_u32_def ind_def)
qed

lemma resolve2_odd_leaf:
  "resolve2 33 odd_leaf_window odd_leaf_table zero_nibbles 1
     = Some (LEAF, take 33 (drop 35 odd_leaf_window), 3, 64)"
proof -
  have d: "drop_bit 4 (0x30 :: u8) = 3" by (simp add: drop_bit_eq_div)
  have "resolve2 33 odd_leaf_window odd_leaf_table zero_nibbles 1 =
     Some (ind (1 < drop_bit 4 ((0x30 # replicate 31 (0 :: u8) @ [0x83]) ! 0)),
           take 33 (drop (offset_l odd_leaf_table ! 1) odd_leaf_window),
           length_l odd_leaf_table ! 1, 1 + 63)"
    by (rule resolve2_SomeI
          [where nib = "map (compact_nibble (0x30 # replicate 31 0 @ [0x83]) True) [0..<64]"])
       (simp_all add: odd_leaf_table_def odd_leaf_first_slot odd_leaf_compact_decode
         odd_path_nibbles zero_nibbles_def)
  then show ?thesis by (simp add: d LEAF_def odd_leaf_table_def ind_def)
qed


lemma storage_run_path_length [simp]: "length (branch_window @ odd_leaf_window) = 1064"
  by simp

lemma memcpy_storage_run_0:
  "memcpy (replicate 532 0) (branch_window @ odd_leaf_window) 0 = Some branch_window"
  by (simp add: memcpy_window)

lemma memcpy_storage_run_1:
  "memcpy (replicate 532 0) (branch_window @ odd_leaf_window) 532 = Some odd_leaf_window"
  by (simp add: memcpy_window)

lemma odd_leaf_value:
  "take 33 (drop 35 odd_leaf_window) = [0x82, 0x12, 0x34] @ replicate 30 0"
  by (simp add: odd_leaf_window_def odd_leaf_def replicate_add [symmetric])

lemma decode0_odd_leaf_value:
  "decode0 ([0x82, 0x12, 0x34] @ replicate 30 0) = Some (1, 2)"
proof -
  have ne: "[0x82, 0x12, 0x34] @ replicate 30 (0 :: u8) \<noteq> []" by simp
  show ?thesis
    unfolding decode0_def decode_len_eq [OF ne]
    by (simp add: Let_def STRING_def unat_sub_80)
qed

lemma byte_value_storage_run:
  "byte_value (replicate 30 0 @ [0x12, 0x34]) = Some ([0x12, 0x34] @ replicate 30 0, 2)"
proof -
  have lz: "lead_zeros (replicate 30 0 @ [0x12, 0x34 :: u8]) = 30"
    by (rule lead_zeros_replicate) simp
  have "length (replicate 30 0 @ [0x12, 0x34 :: u8]) < 2 ^ 31" by simp
  from byte_value_eq [OF this] show ?thesis
    unfolding lz by simp
qed

lemma storage_value_matches:
  "assert_subarray ([0x12, 0x34] @ replicate 30 0) ([0x82, 0x12, 0x34] @ replicate 30 0) 2 1
     = Some ()"
  unfolding assert_subarray_Some
proof (intro allI impI)
  fix i :: nat
  assume "i < length ([0x12, 0x34] @ replicate 30 (0 :: u8))" and "i < 2"
  then consider "i = 0" | "i = 1" by linarith
  then show "1 + i < 2 ^ 32 \<and> 1 + i < length ([0x82, 0x12, 0x34] @ replicate 30 (0 :: u8))
      \<and> ([0x12, 0x34] @ replicate 30 (0 :: u8)) ! i
          = ([0x82, 0x12, 0x34] @ replicate 30 0) ! (1 + i)"
    by cases simp_all
qed

lemma verify_storage_leaf_node_run:
  "verify_storage_leaf_node toy_hash storage_run (replicate 32 0xab) 32 1 zero_nibbles = Some ()"
  by (simp add: verify_storage_leaf_node_def storage_run_def byte_value_storage_run
      MAX_TRIE_NODE_LENGTH_def as_u32_def memcpy_storage_run_1 verify_node_hash_odd_leaf_window
      toy_hash_def decode1_small_lis_odd_leaf_window resolve2_odd_leaf [unfolded One_nat_def]
      LEAF_def
      MAX_STORAGE_VALUE_LENGTH_def odd_leaf_value decode0_odd_leaf_value [simplified]
      storage_value_matches [simplified])

lemma verify_internal_node_run:
  "verify_internal_node toy_hash (replicate 32 1, 0) zero_nibbles
       (branch_window @ odd_leaf_window) 2 0
     = Some (replicate 32 0xab, 1)"
  by (simp add: verify_internal_node_def as_u8_def as_u32_def MAX_TRIE_NODE_LENGTH_def
      memcpy_storage_run_0 verify_node_hash_branch_window toy_hash_def
      resolve_nibble32_branch_window BRANCH_def LEAF_def)

lemma verify_storage_root_run:
  "verify_storage_root toy_hash storage_run (replicate 32 1) = Some True"
proof -
  have key: "toy_hash (replicate 32 0) 32 = replicate 32 0" by (simp add: toy_hash_def)
  have loop: "for_loop (\<lambda>i refs. verify_internal_node toy_hash refs zero_nibbles
                  (branch_window @ odd_leaf_window) 2 i) [0..<1] (replicate 32 1, 0)
              = Some (replicate 32 0xab, 1)"
    by (simp add: verify_internal_node_run)
  have leaf: "verify_storage_leaf_node toy_hash storage_run (replicate 32 0xab) 32 1 zero_nibbles
              = Some ()"
    by (rule verify_storage_leaf_node_run)
  have sel: "key_tp storage_run = replicate 32 0"
    "proof_tp storage_run = branch_window @ odd_leaf_window" "depth_tp storage_run = 2"
    by (simp_all add: storage_run_def)
  have n: "sub_chk (length (branch_window @ odd_leaf_window) div MAX_TRIE_NODE_LENGTH) 1 = Some 1"
    by (simp add: MAX_TRIE_NODE_LENGTH_def)
  have m: "length (branch_window @ odd_leaf_window) mod MAX_TRIE_NODE_LENGTH = 0"
    by (simp add: MAX_TRIE_NODE_LENGTH_def)
  show ?thesis
    unfolding verify_storage_root_def sel key key_as_nibbles_zero Let_def n
    using m loop leaf by simp
qed


section \<open>The one-node state proof\<close>

lemma state_leaf_window_length [simp]: "length state_leaf_window = 532"
  by (simp add: state_leaf_window_def state_leaf_def)

lemma state_leaf_window_nth:
  "state_leaf_window ! 0 = 0xe6" "state_leaf_window ! 1 = 0xa1" "state_leaf_window ! Suc 0 = 0xa1"
  "state_leaf_window ! 2 = 0x20" "state_leaf_window ! 3 = 0"
  "state_leaf_window ! 35 = 0x83" "state_leaf_window ! 36 = 0xc2" "state_leaf_window ! 37 = 1"
  by (simp_all add: state_leaf_window_def state_leaf_def nth_append nth_Cons')

lemma state_leaf_window_ne: "state_leaf_window \<noteq> []"
  by (simp add: state_leaf_window_def state_leaf_def)

lemma decode_len_state_leaf_window:
  "decode_len state_leaf_window = Some \<lparr>offset_h = 1, length_h = 38, data_type_h = LIST\<rparr>"
  unfolding decode_len_eq [OF state_leaf_window_ne]
  by (simp add: state_leaf_window_nth Let_def)

lemma verify_node_hash_state_leaf_window:
  "verify_node_hash keccak256 state_leaf_window h = Some (keccak256 state_leaf_window 39 = h)"
  by (simp add: verify_node_hash_def decode_len_state_leaf_window as_u32_def ind_def)

lemma decode1_state_leaf_window:
  "decode1 2 state_leaf_window = Some storage_leaf_table"
  by (simp add: decode1_def decode1_body_def decode_len_state_leaf_window
      take_dot_drop_3 [OF state_leaf_window_ne] state_leaf_window_nth decode_len_eq
      MAX_LEN_IN_BYTES_def Let_def STRING_def LIST_def upt_conv_Cons replicate_numeral unat_sub_80
      storage_leaf_table_def)

lemma state_leaf_first_slot:
  "take_dot_drop 33 state_leaf_window 2 = Some (0x20 # replicate 32 0)"
proof -
  have "take_dot_drop 33 state_leaf_window 2 = Some (take 33 (drop 2 state_leaf_window))"
    by (rule take_dot_drop_window) simp_all
  moreover have "take 33 (drop 2 state_leaf_window) = 0x20 # replicate 32 0"
    by (simp add: state_leaf_window_def state_leaf_def)
  ultimately show ?thesis by simp
qed

lemma resolve2_state_leaf:
  "resolve2 3 state_leaf_window storage_leaf_table zero_nibbles 0
     = Some (LEAF, [0xc2, 0x01, 0x02], 3, 64)"
proof -
  have d: "drop_bit 4 (0x20 :: u8) = 2" by (simp add: drop_bit_eq_div)
  have v: "take 3 (drop 36 state_leaf_window) = [0xc2, 0x01, 0x02]"
    by (simp add: state_leaf_window_def state_leaf_def)
  have "resolve2 3 state_leaf_window storage_leaf_table zero_nibbles 0 =
     Some (ind (1 < drop_bit 4 ((0x20 # replicate 32 (0 :: u8)) ! 0)),
           take 3 (drop (offset_l storage_leaf_table ! 1) state_leaf_window),
           length_l storage_leaf_table ! 1, 0 + 64)"
    by (rule resolve2_SomeI [where nib = "replicate 64 0"])
       (simp_all add: storage_leaf_table_def state_leaf_first_slot storage_leaf_compact_decode
         zero_nibbles_def)
  then show ?thesis by (simp add: d v LEAF_def storage_leaf_table_def ind_def)
qed

lemma byte_value_state_run:
  "byte_value [0xc2, 0x01, 0x02] = Some ([0xc2, 0x01, 0x02], 3)"
proof -
  have lz: "lead_zeros [0xc2, 0x01, 0x02 :: u8] = 0" by (simp add: lead_zeros_def)
  have "length [0xc2, 0x01, 0x02 :: u8] < 2 ^ 31" by simp
  from byte_value_eq [OF this] show ?thesis
    unfolding lz by simp
qed

lemma state_value_matches:
  "assert_subarray [0xc2, 0x01, 0x02] [0xc2, 0x01, 0x02] 3 0 = Some ()"
  unfolding assert_subarray_Some by simp

lemma verify_state_leaf_node_run:
  "verify_state_leaf_node 3 toy_hash state_run (replicate 32 0) 32 0 zero_nibbles = Some ()"
  by (simp add: verify_state_leaf_node_def state_run_def byte_value_state_run
      MAX_TRIE_NODE_LENGTH_def as_u32_def memcpy_window verify_node_hash_state_leaf_window
      toy_hash_def decode1_state_leaf_window resolve2_state_leaf LEAF_def state_value_matches)

lemma verify_state_root_run:
  "verify_state_root 3 toy_hash state_run (replicate 32 0) = Some True"
proof -
  have key: "toy_hash (replicate 20 0) 20 = replicate 32 0" by (simp add: toy_hash_def)
  have sel: "key_tp state_run = replicate 20 0" "proof_tp state_run = state_leaf_window"
    "depth_tp state_run = 1"
    by (simp_all add: state_run_def)
  have n: "sub_chk (length state_leaf_window div MAX_TRIE_NODE_LENGTH) 1 = Some 0"
    by (simp add: MAX_TRIE_NODE_LENGTH_def)
  have m: "length state_leaf_window mod MAX_TRIE_NODE_LENGTH = 0"
    by (simp add: MAX_TRIE_NODE_LENGTH_def)
  show ?thesis
    unfolding verify_state_root_def sel key key_as_nibbles_zero Let_def n
    using m verify_state_leaf_node_run by simp
qed


section \<open>The cursor of the two runs\<close>

lemma cursor_trace_storage_run:
  "cursor_trace toy_hash 32 storage_run (replicate 32 1) = Some [0, 1]"
proof -
  have key: "toy_hash (replicate 32 0) 32 = replicate 32 0" by (simp add: toy_hash_def)
  have sel: "key_tp storage_run = replicate 32 0"
    "proof_tp storage_run = branch_window @ odd_leaf_window" "depth_tp storage_run = 2"
    by (simp_all add: storage_run_def)
  have n: "sub_chk (length (branch_window @ odd_leaf_window) div MAX_TRIE_NODE_LENGTH) 1 = Some 1"
    by (simp add: MAX_TRIE_NODE_LENGTH_def)
  have st: "internal_steps toy_hash zero_nibbles (branch_window @ odd_leaf_window) 2 [0..<1]
              (replicate 32 1, 0) = Some [(replicate 32 1, 0), (replicate 32 0xab, 1)]"
    by (simp add: verify_internal_node_run)
  show ?thesis
    unfolding cursor_trace_def sel key key_as_nibbles_zero n Option.bind_lunit st
    by simp
qed

lemma terminal_cursor_storage_run:
  "terminal_cursor toy_hash 32 (decode1_small_lis 2) 33 storage_run 1 = Some 64"
  by (simp add: terminal_cursor_def storage_run_def toy_hash_def key_as_nibbles_zero
      MAX_TRIE_NODE_LENGTH_def as_u32_def memcpy_storage_run_1 decode1_small_lis_odd_leaf_window
      resolve2_odd_leaf [unfolded One_nat_def])

lemma cursor_trace_state_run:
  "cursor_trace toy_hash 20 state_run (replicate 32 0) = Some [0]"
proof -
  have key: "toy_hash (replicate 20 0) 20 = replicate 32 0" by (simp add: toy_hash_def)
  have sel: "key_tp state_run = replicate 20 0" "proof_tp state_run = state_leaf_window"
    "depth_tp state_run = 1"
    by (simp_all add: state_run_def)
  have n: "sub_chk (length state_leaf_window div MAX_TRIE_NODE_LENGTH) 1 = Some 0"
    by (simp add: MAX_TRIE_NODE_LENGTH_def)
  show ?thesis
    unfolding cursor_trace_def sel key key_as_nibbles_zero n
    by simp
qed

lemma terminal_cursor_state_run:
  "terminal_cursor toy_hash 20 (decode1 2) 3 state_run 0 = Some 64"
  by (simp add: terminal_cursor_def state_run_def toy_hash_def key_as_nibbles_zero
      MAX_TRIE_NODE_LENGTH_def as_u32_def memcpy_window decode1_state_leaf_window
      resolve2_state_leaf)

theorem nibble_cursor_run_witness:
  "verify_storage_root toy_hash storage_run (replicate 32 1) = Some True
   \<and> verify_state_root 3 toy_hash state_run (replicate 32 0) = Some True
   \<and> (\<exists>tr. cursor_trace toy_hash 32 storage_run (replicate 32 1) = Some tr \<and> hd tr = 0
          \<and> sorted tr \<and> last tr \<le> 64
          \<and> terminal_cursor toy_hash 32 (decode1_small_lis 2) 33 storage_run (last tr) = Some 64)
   \<and> (\<exists>tr. cursor_trace toy_hash 20 state_run (replicate 32 0) = Some tr \<and> hd tr = 0
          \<and> sorted tr \<and> last tr \<le> 64
          \<and> terminal_cursor toy_hash 20 (decode1 2) 3 state_run (last tr) = Some 64)"
  using nibble_cursor_run [of toy_hash storage_run "replicate 32 1" True 3 state_run
      "replicate 32 0" True]
    verify_storage_root_run verify_state_root_run
  by simp

text \<open>
  The state run above verifies an account under a 20-byte address, and its terminal cursor
  is 64, not \<open>2 * 20\<close>.
\<close>

theorem state_cursor_not_40_counterexample:
  "verify_state_root 3 toy_hash state_run (replicate 32 0) = Some True
   \<and> length (key_tp state_run) = 20
   \<and> cursor_trace toy_hash 20 state_run (replicate 32 0) = Some [0]
   \<and> terminal_cursor toy_hash 20 (decode1 2) 3 state_run 0 = Some 64
   \<and> (64 :: nat) \<noteq> 2 * length (key_tp state_run)"
  using verify_state_root_run cursor_trace_state_run terminal_cursor_state_run
  by (simp add: state_run_def)

section \<open>The 8-bit range indicator of the internal step\<close>

subsection \<open>A branch window with any child hash\<close>

lemma branch_with_length [simp]: "length c = 32 \<Longrightarrow> length (branch_with c) = 532"
  by (simp add: branch_with_def)

lemma branch_with_nth:
  assumes "length c = 32"
  shows "branch_with c ! 0 = 0xf1" "branch_with c ! 1 = 0xa0" "branch_with c ! Suc 0 = 0xa0"
    "34 \<le> k \<Longrightarrow> k < 50 \<Longrightarrow> branch_with c ! k = 0x80"
    "50 \<le> k \<Longrightarrow> k < 532 \<Longrightarrow> branch_with c ! k = 0"
  using assms by (auto simp: branch_with_def nth_append nth_Cons')

lemma branch_with_child:
  assumes "length c = 32"
  shows "take 32 (drop 2 (branch_with c)) = c"
  using assms by (simp add: branch_with_def)

lemma branch_with_ne: "branch_with c \<noteq> []"
  by (simp add: branch_with_def)

lemma decode_len_branch_with:
  assumes "length c = 32"
  shows "decode_len (branch_with c)
         = Some \<lparr>offset_h = 1, length_h = 49, data_type_h = LIST\<rparr>"
  unfolding decode_len_eq [OF branch_with_ne]
  by (simp add: branch_with_nth [OF assms] Let_def)

lemma branch_with_step_0:
  assumes "length c = 32" and "length os = 17" and "length ls = 17"
  shows "decode1_small_lis_body (branch_with c) 50 0 (Suc 0, 0, os, ls, replicate 17 0)
         = Some (34, Suc 0, os[0 := 2], ls[0 := 32], replicate 17 0)"
  using assms
  by (simp add: decode1_small_lis_body_def branch_with_nth Let_def STRING_def unat_sub_80
      numeral_2_eq_2 [symmetric])

lemma branch_with_step:
  assumes "length c = 32" and "off = 33 + k" and "nf = k" and "1 \<le> k" and "k < 17"
    and "length os = 17" and "length ls = 17"
  shows "decode1_small_lis_body (branch_with c) 50 k (off, nf, os, ls, replicate 17 0)
         = Some (Suc off, Suc k, os[k := Suc off], ls[k := 0], replicate 17 0)"
  using assms
  by (simp add: decode1_small_lis_body_def branch_with_nth Let_def STRING_def unat_sub_80)

lemma decode1_small_lis_branch_with:
  assumes c: "length c = 32"
  shows "decode1_small_lis 17 (branch_with c) = Some branch_table"
proof -
  have loop: "for_loop (decode1_small_lis_body (branch_with c) 50) [0..<17]
                (Suc 0, 0, replicate 17 0, replicate 17 0, replicate 17 0)
              = Some (50, 17,
                  (replicate 17 0)[0 := 2, 1 := 35, 2 := 36, 3 := 37, 4 := 38, 5 := 39, 6 := 40,
                    7 := 41, 8 := 42, 9 := 43, 10 := 44, 11 := 45, 12 := 46, 13 := 47, 14 := 48,
                    15 := 49, 16 := 50],
                  (replicate 17 0)[0 := 32, 1 := 0, 2 := 0, 3 := 0, 4 := 0, 5 := 0, 6 := 0,
                    7 := 0, 8 := 0, 9 := 0, 10 := 0, 11 := 0, 12 := 0, 13 := 0, 14 := 0,
                    15 := 0, 16 := 0], replicate 17 0)"
    unfolding upt_17
    by (simp add: branch_with_step_0 [OF c] branch_with_step [OF c])
  have os: "(replicate 17 0)[0 := 2, 1 := 35, 2 := 36, 3 := 37, 4 := 38, 5 := 39, 6 := 40,
                    7 := 41, 8 := 42, 9 := 43, 10 := 44, 11 := 45, 12 := 46, 13 := 47, 14 := 48,
                    15 := 49, 16 := 50] = (2 :: nat) # [35..<51]"
    by (simp add: replicate_numeral upt_conv_Cons)
  have ls: "(replicate 17 0)[0 := 32, 1 := 0, 2 := 0, 3 := 0, 4 := 0, 5 := 0, 6 := 0,
                    7 := 0, 8 := 0, 9 := 0, 10 := 0, 11 := 0, 12 := 0, 13 := 0, 14 := 0,
                    15 := 0, 16 := 0] = (32 :: nat) # replicate 16 0"
    by (simp add: replicate_numeral)
  have loop2: "for_loop (decode1_small_lis_body (branch_with c) 50) [0..<17]
                (Suc 0, 0, replicate 17 0, replicate 17 0, replicate 17 0)
              = Some (50, 17, 2 # [35..<51], 32 # replicate 16 0, replicate 17 0)"
    using loop unfolding os ls .
  show ?thesis
    unfolding decode1_small_lis_def decode_len_branch_with [OF c] Option.bind_lunit Let_def
    using c by (simp add: loop2 LIST_def branch_table_def)
qed

lemma resolve17_branch_with:
  assumes c: "length c = 32" and k: "length kn = 64" and kp: "kp < 64" and z: "kn ! kp = 0"
  shows "resolve17 (branch_with c) branch_table kn kp = Some (c, 32, kp + 1)"
proof -
  have k': "length kn = NIBBLE_LENGTH" using k by (simp add: NIBBLE_LENGTH_def)
  have u: "\<forall>i<16. length_l branch_table ! i < 2 ^ 64"
    using branch_table_lengths by fastforce
  show ?thesis
    unfolding resolve17_iff [OF k' u] z
    using branch_table_lengths kp c
    by (simp add: branch_table_def branch_with_child)
qed

lemma resolve_nibble32_branch_with:
  assumes c: "length c = 32" and k: "length kn = 64" and kp: "kp < 64" and z: "kn ! kp = 0"
  shows "resolve_nibble32 kn kp (branch_with c) = Some (BRANCH, c, kp + 1)"
  by (simp add: resolve_nibble32_def MAX_NUM_FIELDS_def decode1_small_lis_branch_with [OF c]
      resolve17_branch_with [OF c k kp z] KEY_LENGTH_def BRANCH_def LEAF_def)
     (simp add: branch_table_def)

lemma verify_node_hash_branch_with:
  assumes "length c = 32"
  shows "verify_node_hash keccak256 (branch_with c) h
         = Some (keccak256 (branch_with c) 50 = h)"
  using assms
  by (simp add: verify_node_hash_def decode_len_branch_with as_u32_def ind_def)


subsection \<open>The internal step, evaluated\<close>

lemma verify_internal_node_masked_eval:
  assumes d: "1 \<le> depth" and m: "\<not> as_u8 i < as_u8 (depth - 1)"
    and node: "memcpy (replicate MAX_TRIE_NODE_LENGTH 0) path 0 = Some node"
    and vh: "verify_node_hash kc node h = Some ok"
    and r: "resolve_nibble32 kn 0 node = Some res"
  shows "verify_internal_node kc (h, kp) kn path depth i = Some (h, kp)"
  using d m unfolding verify_internal_node_def
  by (simp add: as_u32_def node vh r split: prod.splits)

lemma verify_internal_node_in_range_eval:
  assumes d: "1 \<le> depth" and m: "as_u8 i < as_u8 (depth - 1)"
    and b: "i * MAX_TRIE_NODE_LENGTH < 2 ^ 32"
    and node: "memcpy (replicate MAX_TRIE_NODE_LENGTH 0) path (i * MAX_TRIE_NODE_LENGTH)
               = Some node"
    and vh: "verify_node_hash kc node h = Some True"
    and r: "resolve_nibble32 kn kp node = Some (ty, h', kp')" and ty: "ty \<noteq> LEAF"
  shows "verify_internal_node kc (h, kp) kn path depth i = Some (h', kp')"
proof -
  have o: "i * MAX_TRIE_NODE_LENGTH < 2 ^ 64"
    using b by (rule order_less_trans) simp
  have a: "as_u32 (i * MAX_TRIE_NODE_LENGTH) = i * MAX_TRIE_NODE_LENGTH"
    using b by (simp add: as_u32_def)
  show ?thesis
    using d m ty unfolding verify_internal_node_def
    by (simp add: u64_eval [OF o] a node vh r)
qed

text \<open>
  When both depths fit in 8 bits the casts change nothing: a step at or past \<open>depth - 1\<close>
  returns both references as they were, and a step before it checks the hash of its window
  and returns what \<open>resolve_nibble32\<close> extracts from it.
\<close>

lemma verify_internal_node_masked_small:
  assumes i: "depth - 1 \<le> i" "i < 256"
    and s: "verify_internal_node kc (h, kp) kn path depth i = Some (h', kp')"
  shows "h' = h \<and> kp' = kp"
proof -
  have a: "as_u8 i = i" "as_u8 (depth - Suc 0) = depth - Suc 0"
    using i by (simp_all add: as_u8_def)
  from s show ?thesis
    unfolding verify_internal_node_def
    using i(1) by (auto simp: bind_eq_Some_conv a Let_def split: prod.splits if_splits)
qed

lemma verify_internal_node_checked_small:
  assumes i: "i < depth - 1" "depth \<le> 256"
    and s: "verify_internal_node kc (h, kp) kn path depth i = Some (h', kp')"
  shows "\<exists>node ty. memcpy (replicate MAX_TRIE_NODE_LENGTH 0) path (i * MAX_TRIE_NODE_LENGTH)
                     = Some node
           \<and> verify_node_hash kc node h = Some True
           \<and> resolve_nibble32 kn kp node = Some (ty, h', kp') \<and> ty \<noteq> LEAF"
proof -
  have a: "as_u8 i = i" "as_u8 (depth - Suc 0) = depth - Suc 0"
    using i by (simp_all add: as_u8_def)
  have "i * MAX_TRIE_NODE_LENGTH < 2 ^ 32"
    using i by (simp add: MAX_TRIE_NODE_LENGTH_def)
  then have b: "as_u32 (i * MAX_TRIE_NODE_LENGTH) = i * MAX_TRIE_NODE_LENGTH"
    by (simp add: as_u32_def)
  from s show ?thesis
    unfolding verify_internal_node_def
    using i(1) by (auto simp: bind_eq_Some_conv a b Let_def split: prod.splits if_splits)
qed

lemma wide_path_window_0:
  assumes "length c = 32"
  shows "memcpy (replicate MAX_TRIE_NODE_LENGTH 0) (wide_path c) 0 = Some (branch_with c)"
  using assms by (simp add: memcpy_window MAX_TRIE_NODE_LENGTH_def wide_path_def)

lemma wide_path_step:
  assumes c: "length c = 32" and k: "length kn = 64" and z: "kn ! 0 = 0"
  shows "verify_internal_node kc (h, kp) kn (wide_path c) 257 i = Some (h, kp)"
proof -
  have m: "\<not> as_u8 i < as_u8 (257 - 1)" by (simp add: as_u8_def)
  show ?thesis
    by (rule verify_internal_node_masked_eval
          [OF _ m wide_path_window_0 [OF c] verify_node_hash_branch_with [OF c]
              resolve_nibble32_branch_with [OF c k _ z]])
       simp_all
qed

text \<open>
  C1 (evaluation). A proof path of 257 windows with \<open>depth = 257\<close>: the driver loop runs
  \<open>cur_depth = 0, \<dots>, 255\<close>, each of them an internal step (\<open>cur_depth < depth - 1 = 256\<close>).
  The range indicator compares after a cast to \<open>u8\<close>, and \<open>(257 - 1) as u8 = 0\<close>, so each of
  these steps is masked.  For every hash function, every incoming hash \<open>h\<close>, every cursor and
  every key whose first nibble is 0, the step on the branch window returns \<open>h\<close> and the
  cursor unchanged: the hash of the window is not compared with \<open>h\<close>, and the child \<open>c\<close> is
  not extracted.  The whole loop of the driver leaves the root and the cursor as they were.
\<close>

theorem verify_internal_node_depth_257:
  assumes c: "length c = 32" and k: "length kn = 64" and z: "kn ! 0 = 0"
  shows "length (wide_path c) div MAX_TRIE_NODE_LENGTH - 1 = 256
     \<and> verify_internal_node kc (h, kp) kn (wide_path c) 257 i = Some (h, kp)
     \<and> for_loop (\<lambda>i refs. verify_internal_node kc refs kn (wide_path c) 257 i)
           [0..<256] (h, 0) = Some (h, 0)"
proof -
  have "for_loop (\<lambda>i refs. verify_internal_node kc refs kn (wide_path c) 257 i)
           [0..<256] (h, 0) = Some (h, 0)"
    by (rule for_loop_fixpoint) (rule wide_path_step [OF c k z])
  moreover have "length (wide_path c) div MAX_TRIE_NODE_LENGTH - 1 = 256"
    using c by (simp add: wide_path_def MAX_TRIE_NODE_LENGTH_def)
  ultimately show ?thesis using wide_path_step [OF c k z] by simp
qed

theorem verify_internal_node_depth_257_witness:
  "(0 :: nat) < 257 - 1
   \<and> verify_node_hash toy_hash (branch_with (replicate 32 0xab)) (replicate 32 0) = Some False
   \<and> resolve_nibble32 zero_nibbles 0 (branch_with (replicate 32 0xab))
       = Some (BRANCH, replicate 32 0xab, 1)
   \<and> length (wide_path (replicate 32 0xab)) div MAX_TRIE_NODE_LENGTH - 1 = 256
   \<and> verify_internal_node toy_hash (replicate 32 0, 0) zero_nibbles
         (wide_path (replicate 32 0xab)) 257 0 = Some (replicate 32 0, 0)
   \<and> for_loop (\<lambda>i refs. verify_internal_node toy_hash refs zero_nibbles
                          (wide_path (replicate 32 0xab)) 257 i)
         [0..<256] (replicate 32 0, 0) = Some (replicate 32 0, 0)"
proof -
  have c: "length (replicate 32 (0xab :: u8)) = 32" by simp
  have k: "length zero_nibbles = 64" by (simp add: zero_nibbles_def)
  have z: "zero_nibbles ! 0 = 0" by (simp add: zero_nibbles_def)
  have r: "resolve_nibble32 zero_nibbles 0 (branch_with (replicate 32 0xab))
             = Some (BRANCH, replicate 32 0xab, 1)"
    using resolve_nibble32_branch_with [OF c k _ z] by simp
  have v: "verify_node_hash toy_hash (branch_with (replicate 32 0xab)) (replicate 32 0)
             = Some False"
    by (simp add: verify_node_hash_branch_with toy_hash_def)
  from verify_internal_node_depth_257
         [OF c k z, where kc = toy_hash and h = "replicate 32 0" and kp = 0 and i = 0] r v
  show ?thesis by simp
qed


lemma deep_path_length:
  assumes "length c = 32" and "length (kc (branch_with c) 50) = 32"
  shows "length (deep_path kc c) = 258 * 532"
  using assms by (simp add: deep_path_def)

lemma deep_path_window_0:
  assumes "length c = 32" and "length (kc (branch_with c) 50) = 32"
  shows "memcpy (replicate MAX_TRIE_NODE_LENGTH 0) (deep_path kc c) 0
         = Some (branch_with (kc (branch_with c) 50))"
  using assms by (simp add: memcpy_window MAX_TRIE_NODE_LENGTH_def deep_path_def)

lemma deep_path_window_256:
  assumes "length c = 32" and "length (kc (branch_with c) 50) = 32"
  shows "memcpy (replicate MAX_TRIE_NODE_LENGTH 0) (deep_path kc c) (256 * MAX_TRIE_NODE_LENGTH)
         = Some (branch_with c)"
  using assms by (simp add: memcpy_window MAX_TRIE_NODE_LENGTH_def deep_path_def)

lemma deep_path_step_0:
  assumes c: "length c = 32" and r: "length (kc (branch_with c) 50) = 32"
    and k: "length kn = 64" and z: "kn ! 0 = 0"
  shows "verify_internal_node kc (kc (branch_with (kc (branch_with c) 50)) 50, 0) kn
           (deep_path kc c) 2 0 = Some (kc (branch_with c) 50, 1)"
proof -
  have m: "as_u8 0 < as_u8 (2 - 1)" by (simp add: as_u8_def)
  have w: "memcpy (replicate MAX_TRIE_NODE_LENGTH 0) (deep_path kc c) (0 * MAX_TRIE_NODE_LENGTH)
           = Some (branch_with (kc (branch_with c) 50))"
    using deep_path_window_0 [where kc = kc and c = c, OF c r] by simp
  have v: "verify_node_hash kc (branch_with (kc (branch_with c) 50))
             (kc (branch_with (kc (branch_with c) 50)) 50) = Some True"
    by (simp add: verify_node_hash_branch_with [OF r])
  have n: "resolve_nibble32 kn 0 (branch_with (kc (branch_with c) 50))
           = Some (BRANCH, kc (branch_with c) 50, 1)"
    using resolve_nibble32_branch_with [OF r k _ z] by simp
  show ?thesis
    by (rule verify_internal_node_in_range_eval [OF _ m _ w v n])
       (simp_all add: BRANCH_def LEAF_def)
qed

lemma deep_path_step_masked:
  assumes c: "length c = 32" and r: "length (kc (branch_with c) 50) = 32"
    and k: "length kn = 64" and z: "kn ! 0 = 0" and i: "1 \<le> i" "i < 256"
  shows "verify_internal_node kc (h, kp) kn (deep_path kc c) 2 i = Some (h, kp)"
proof -
  have m: "\<not> as_u8 i < as_u8 (2 - 1)" using i by (simp add: as_u8_def)
  show ?thesis
    by (rule verify_internal_node_masked_eval
          [OF _ m deep_path_window_0 [where kc = kc and c = c, OF c r] verify_node_hash_branch_with [OF r]
              resolve_nibble32_branch_with [OF r k _ z]])
       simp_all
qed

lemma deep_path_step_256:
  assumes c: "length c = 32" and r: "length (kc (branch_with c) 50) = 32"
    and k: "length kn = 64" and z: "kn ! 1 = 0"
  shows "verify_internal_node kc (kc (branch_with c) 50, 1) kn (deep_path kc c) 2 256
         = Some (c, 2)"
proof -
  have m: "as_u8 256 < as_u8 (2 - 1)" by (simp add: as_u8_def)
  have v: "verify_node_hash kc (branch_with c) (kc (branch_with c) 50) = Some True"
    by (simp add: verify_node_hash_branch_with [OF c])
  have n: "resolve_nibble32 kn 1 (branch_with c) = Some (BRANCH, c, 2)"
    using resolve_nibble32_branch_with [OF c k _ z] by simp
  show ?thesis
    by (rule verify_internal_node_in_range_eval [OF _ m _ deep_path_window_256 [where kc = kc and c = c, OF c r] v n])
       (simp_all add: BRANCH_def LEAF_def MAX_TRIE_NODE_LENGTH_def)
qed

lemma deep_path_loop:
  assumes c: "length c = 32" and r: "length (kc (branch_with c) 50) = 32"
    and k: "length kn = 64" and z: "kn ! 0 = 0"
  shows "for_loop (\<lambda>i refs. verify_internal_node kc refs kn (deep_path kc c) 2 i) [0..<256]
           (kc (branch_with (kc (branch_with c) 50)) 50, 0)
         = Some (kc (branch_with c) 50, 1)"
proof -
  have split: "[0..<256] = 0 # [Suc 0..<256]" by (rule upt_conv_Cons) simp
  have rest: "for_loop (\<lambda>i refs. verify_internal_node kc refs kn (deep_path kc c) 2 i)
                [Suc 0..<256] (kc (branch_with c) 50, 1) = Some (kc (branch_with c) 50, 1)"
    by (rule for_loop_fixpoint) (simp add: deep_path_step_masked [where kc = kc and c = c, OF c r k z])
  show ?thesis
    unfolding split using deep_path_step_0 [where kc = kc and c = c, OF c r k z] rest by simp
qed

text \<open>
  C9 (evaluation). A proof path of 258 windows with \<open>depth = 2\<close>: the driver loop runs
  \<open>cur_depth = 0, \<dots>, 256\<close>, and every \<open>cur_depth \<ge> depth - 1 = 1\<close> is an out-of-range
  iteration.  For every hash function (with 32-byte digests) and every key whose first two
  nibbles are 0, the loop reaches \<open>cur_depth = 256\<close> with the child hash of window 0 and
  cursor 1; there \<open>256 as u8 = 0 < 1\<close> makes the range indicator true, window 256 is hashed
  and resolved, and the call returns with both references changed, to the child \<open>c\<close> of
  window 256 and cursor 2.
\<close>

theorem verify_internal_node_cur_depth_256:
  assumes c: "length c = 32" and r: "length (kc (branch_with c) 50) = 32"
    and k: "length kn = 64" and z: "kn ! 0 = 0" "kn ! 1 = 0"
  shows "length (deep_path kc c) div MAX_TRIE_NODE_LENGTH - 1 = 257
     \<and> for_loop (\<lambda>i refs. verify_internal_node kc refs kn (deep_path kc c) 2 i) [0..<256]
           (kc (branch_with (kc (branch_with c) 50)) 50, 0)
         = Some (kc (branch_with c) 50, 1)
     \<and> verify_internal_node kc (kc (branch_with c) 50, 1) kn (deep_path kc c) 2 256
         = Some (c, 2)"
  using deep_path_loop [where kc = kc and c = c, OF c r k z(1)] deep_path_step_256 [where kc = kc and c = c, OF c r k z(2)]
    deep_path_length [where kc = kc and c = c, OF c r]
  by (simp add: MAX_TRIE_NODE_LENGTH_def)

theorem verify_internal_node_cur_depth_256_witness:
  "(2 :: nat) - 1 \<le> 256
   \<and> length (deep_path toy_hash (replicate 32 0xab)) div MAX_TRIE_NODE_LENGTH - 1 = 257
   \<and> for_loop (\<lambda>i refs. verify_internal_node toy_hash refs zero_nibbles
                          (deep_path toy_hash (replicate 32 0xab)) 2 i) [0..<256]
         (replicate 32 1, 0) = Some (replicate 32 1, 1)
   \<and> verify_internal_node toy_hash (replicate 32 1, 1) zero_nibbles
         (deep_path toy_hash (replicate 32 0xab)) 2 256 = Some (replicate 32 0xab, 2)"
proof -
  have c: "length (replicate 32 (0xab :: u8)) = 32" by simp
  have h: "\<And>node. toy_hash node 50 = replicate 32 1" by (simp add: toy_hash_def)
  have r: "length (toy_hash (branch_with (replicate 32 0xab)) 50) = 32" by (simp add: h)
  have k: "length zero_nibbles = 64" by (simp add: zero_nibbles_def)
  have z: "zero_nibbles ! 0 = 0" "zero_nibbles ! 1 = 0" by (simp_all add: zero_nibbles_def)
  from verify_internal_node_cur_depth_256
         [where kc = toy_hash and c = "replicate 32 0xab", OF c r k z]
  show ?thesis by (simp add: h)
qed

end
